theory Spec2Isabelle
  imports Main "HOL-Library.Sublist"
begin

section \<open>Strings as the source uses them\<close>

text \<open>
  A Python \<open>str\<close> is modelled as a \<open>string\<close>; a character is a code point below 256.
  In that range \<open>str.isspace\<close> holds for the code points 9 to 13, 28 to 32, 133 and 160,
  \<open>str.lower\<close> moves \<open>A\<close> to \<open>Z\<close> and the Latin-1 capitals (192 to 222 without 215) up
  by 32, and the class \<open>\d\<close> of the module \<open>re\<close> holds the ten ASCII digits.
\<close>

definition isspace :: "char \<Rightarrow> bool" where
  "isspace c = (let n = (of_char c :: nat) in (9 \<le> n \<and> n \<le> 13) \<or> (28 \<le> n \<and> n \<le> 32) \<or> n = 133 \<or> n = 160)"

definition strip :: "string \<Rightarrow> string" where
  "strip s = rev (dropWhile isspace (rev (dropWhile isspace s)))"

definition lower_char :: "char \<Rightarrow> char" where
  "lower_char c = (let n = (of_char c :: nat) in
     if (65 \<le> n \<and> n \<le> 90) \<or> (192 \<le> n \<and> n \<le> 222 \<and> n \<noteq> 215) then char_of (n + 32) else c)"

definition lower :: "string \<Rightarrow> string" where
  "lower s = map lower_char s"

definition startswith :: "string \<Rightarrow> string \<Rightarrow> bool" where
  "startswith s w = prefix w s"

definition endswith :: "string \<Rightarrow> string \<Rightarrow> bool" where
  "endswith s w = suffix w s"

text \<open>\<open>contains w s\<close> is Python's \<open>w in s\<close>: \<open>w\<close> starts at some position of \<open>s\<close>.\<close>

fun contains :: "string \<Rightarrow> string \<Rightarrow> bool" where
  "contains w [] = (w = [])"
| "contains w (x # xs) = (prefix w (x # xs) \<or> contains w xs)"

section \<open>The regular expressions of the log classifier\<close>

text \<open>
  The three patterns of \<open>extract_log\<close> are sequences of literal characters, of \<open>.*\<close>,
  of \<open>.*?\<close> and of the capturing group \<open>(\d+)\<close>. A pattern is a list of such atoms, and
  \<open>matches\<close> is the backtracking search of \<open>re\<close> at a fixed start: a greedy atom tries
  the longer match first, a lazy one the shorter, and the first alternative that lets the
  rest of the pattern match is taken. The result is the list of captured groups.
  \<open>.\<close> matches every character but the newline.
\<close>

datatype char_class = Dot | Digit

datatype atom = Lit char | Greedy char_class | Lazy char_class | Group char_class

fun in_class :: "char_class \<Rightarrow> char \<Rightarrow> bool" where
  "in_class Dot c = (c \<noteq> CHR 0x0A)"
| "in_class Digit c = (c \<in> set ''0123456789'')"

fun matches :: "atom list \<Rightarrow> string \<Rightarrow> string list option"
  and capture :: "char_class \<Rightarrow> atom list \<Rightarrow> string \<Rightarrow> string \<Rightarrow> string list option"
where
  "matches [] s = Some []"
| "matches (Lit c # p) [] = None"
| "matches (Lit c # p) (x # xs) = (if x = c then matches p xs else None)"
| "matches (Greedy k # p) [] = matches p []"
| "matches (Greedy k # p) (x # xs) =
     (if in_class k x
      then (case matches (Greedy k # p) xs of Some g \<Rightarrow> Some g | None \<Rightarrow> matches p (x # xs))
      else matches p (x # xs))"
| "matches (Lazy k # p) [] = matches p []"
| "matches (Lazy k # p) (x # xs) =
     (case matches p (x # xs) of Some g \<Rightarrow> Some g
      | None \<Rightarrow> if in_class k x then matches (Lazy k # p) xs else None)"
| "matches (Group k # p) [] = None"
| "matches (Group k # p) (x # xs) = (if in_class k x then capture k p [x] xs else None)"
| "capture k p acc [] = map_option (Cons acc) (matches p [])"
| "capture k p acc (x # xs) =
     (if in_class k x
      then (case capture k p (acc @ [x]) xs of Some g \<Rightarrow> Some g
            | None \<Rightarrow> map_option (Cons acc) (matches p (x # xs)))
      else map_option (Cons acc) (matches p (x # xs)))"

definition re_match :: "atom list \<Rightarrow> string \<Rightarrow> string list option" where
  "re_match p s = matches p s"

fun re_search :: "atom list \<Rightarrow> string \<Rightarrow> string list option" where
  "re_search p [] = matches p []"
| "re_search p (x # xs) = (case matches p (x # xs) of Some g \<Rightarrow> Some g | None \<Rightarrow> re_search p xs)"

text \<open>\<open>Animation (\d+)\<close>\<close>

definition re_animation :: "atom list" where
  "re_animation = map Lit ''Animation '' @ [Group Digit]"

text \<open>\<open>Animation (\d+):.*?(\d+)%\|\<close>\<close>

definition re_progress :: "atom list" where
  "re_progress = map Lit ''Animation '' @ [Group Digit, Lit CHR '':'', Lazy Dot, Group Digit,
     Lit CHR ''%'', Lit CHR ''|'']"

text \<open>\<open>.*Animation (\d+):.*?(\d+)%\|.*\<close>\<close>

definition re_progress_line :: "atom list" where
  "re_progress_line = Greedy Dot # re_progress @ [Greedy Dot]"

section \<open>The log classifier\<close>

definition extract_log :: "string \<Rightarrow> string option" where
  "extract_log line =
     (if contains ''Animation'' line \<and> contains ''Partial'' line then
        (case re_search re_animation line of
           Some (n # _) \<Rightarrow> Some (''Animation '' @ n @ '' loaded'')
         | _ \<Rightarrow> None)
      else if re_match re_progress_line line \<noteq> None then
        (case re_search re_progress line of
           Some (n # p # _) \<Rightarrow> Some (''Animation '' @ n @ '' progress: '' @ p @ ''%'')
         | _ \<Rightarrow> None)
      else if contains ''File ready at'' line then Some ''Final video ready!''
      else if contains ''Rendered ArchitectureDiagram'' line then Some ''Rendering complete!''
      else if contains ''Played'' line then Some (strip line)
      else if contains ''ERROR'' line \<or> contains ''Exception'' line then Some ''Error occurred''
      else None)"

section \<open>The registry of subscriber queues\<close>

text \<open>
  \<open>subscribers\<close> is the module-level dictionary of \<open>runner.py\<close>, from conversation id
  to \<open>asyncio.Queue\<close>. A queue is an object: the dictionary holds a reference to it, and so
  does the stream that created it, also after the dictionary entry has been replaced. The
  state therefore has a store of queues, addressed by reference; \<open>allocated\<close> counts the
  queues created so far, and a new queue takes the next reference.
\<close>

record state =
  subscribers :: "string \<rightharpoonup> nat"
  queues :: "nat \<Rightarrow> string list"
  allocated :: nat

text \<open>\<open>asyncio.Queue()\<close>: a new, empty, unbounded queue.\<close>

definition Queue :: "state \<Rightarrow> nat \<times> state" where
  "Queue s = (allocated s, s\<lparr>queues := (queues s)(allocated s := []), allocated := Suc (allocated s)\<rparr>)"

text \<open>\<open>q.put(msg)\<close> on an unbounded queue: the message goes to the tail.\<close>

definition put :: "nat \<Rightarrow> string \<Rightarrow> state \<Rightarrow> state" where
  "put q msg s = s\<lparr>queues := (queues s)(q := queues s q @ [msg])\<rparr>"

text \<open>
  The executor publishes with
  \<^verbatim>\<open>if conversation_id in subscribers: await subscribers[conversation_id].put(msg)\<close>.
\<close>

definition publish :: "string \<Rightarrow> string \<Rightarrow> state \<Rightarrow> state" where
  "publish conversation_id msg s =
     (case subscribers s conversation_id of None \<Rightarrow> s | Some q \<Rightarrow> put q msg s)"

text \<open>
  The first two statements of \<open>event_gen\<close>:
  \<^verbatim>\<open>q = asyncio.Queue(); subscribers[conversationId] = q\<close>.
\<close>

definition register :: "string \<Rightarrow> state \<Rightarrow> nat \<times> state" where
  "register conversationId s =
     (case Queue s of (q, s1) \<Rightarrow> (q, s1\<lparr>subscribers := (subscribers s1)(conversationId \<mapsto> q)\<rparr>))"

text \<open>
  In every state the program reaches, a reference the dictionary holds is one of a queue
  that was created, and two ids never share a queue.
\<close>

definition wf_state :: "state \<Rightarrow> bool" where
  "wf_state s =
     ((\<forall>c q. subscribers s c = Some q \<longrightarrow> q < allocated s) \<and>
      (\<forall>c c' q. subscribers s c = Some q \<and> subscribers s c' = Some q \<longrightarrow> c = c'))"

section \<open>Exceptions, configuration and environment\<close>

datatype exc =
    CalledProcessError int "string list"
  | FileNotFoundError string
  | HTTPException int string
  | Raised string
  | CancelledError
  | KeyboardInterrupt

text \<open>
  \<open>Raised\<close> stands for any other exception of class \<open>Exception\<close>.
  \<open>asyncio.CancelledError\<close> and \<open>KeyboardInterrupt\<close> derive from \<open>BaseException\<close>
  only: a clause \<open>except Exception\<close> does not catch them.
\<close>

fun is_Exception :: "exc \<Rightarrow> bool" where
  "is_Exception CancelledError = False"
| "is_Exception KeyboardInterrupt = False"
| "is_Exception (CalledProcessError n cmd) = True"
| "is_Exception (FileNotFoundError m) = True"
| "is_Exception (HTTPException n d) = True"
| "is_Exception (Raised m) = True"

datatype json = JNull | JBool bool | JNum int | JStr string | JList "json list"
  | JDict "(string \<times> json) list"

record config =
  SUPABASE_URL :: string
  SUPABASE_API_KEY :: string
  SUPABASE_BUCKET :: string
  SPRING_CALLBACK_URL :: "string option"

text \<open>
  What the operating system, the subprocess and the remote services do during one call:
  \<^item> \<open>str_exc\<close>: Python's \<open>str(e)\<close>;
  \<^item> \<open>mkdtemp\<close>: the directory \<open>tempfile.TemporaryDirectory()\<close> creates, or what it raises;
  \<^item> \<open>write_file path text\<close>: what \<open>open(path, "w")\<close> and \<open>f.write(text)\<close> raise, if anything;
  \<^item> \<open>makedirs path\<close>: what \<open>os.makedirs(path, exist_ok=True)\<close> raises, if anything;
  \<^item> \<open>spawn cmd cwd\<close>: what \<open>asyncio.create_subprocess_exec\<close> raises, if anything;
  \<^item> \<open>readline i\<close>: the \<open>i\<close>-th \<open>await process.stdout.readline()\<close> with its
    \<open>decode('utf-8')\<close>: \<open>None\<close> at the end of the stream, the exception either call raises,
    or the decoded text; a subprocess that never closes its output has no \<open>None\<close>;
  \<^item> \<open>wait\<close>: the return code \<open>await process.wait()\<close> gives, or what it raises;
  \<^item> \<open>walk top\<close>: the triples \<open>(root, dirs, files)\<close> of \<open>os.walk(top)\<close>;
  \<^item> \<open>exists path\<close>: \<open>os.path.exists(path)\<close>;
  \<^item> \<open>post_file url path\<close>: what opening the file, \<open>requests.post\<close> and
    \<open>raise_for_status\<close> raise in \<open>upload_to_supabase\<close>, if anything;
  \<^item> \<open>post_json url conversation_id video_url\<close>: the same for the callback;
  \<^item> \<open>cleanup\<close>: what the removal of the temporary directory raises, if anything, when
    the \<open>with\<close> block is left.
  An exception is any value of \<open>exc\<close>: the awaits of lines 113, 122 and 138 raise
  \<open>CancelledError\<close> when the task is cancelled there. \<open>await q.put(msg)\<close> on an unbounded
  queue does not suspend, so no cancellation arrives in it. Logging is taken not to raise.
\<close>

record env =
  str_exc :: "exc \<Rightarrow> string"
  mkdtemp :: "exc + string"
  write_file :: "string \<Rightarrow> string \<Rightarrow> exc option"
  makedirs :: "string \<Rightarrow> exc option"
  spawn :: "string list \<Rightarrow> string \<Rightarrow> exc option"
  readline :: "nat \<Rightarrow> (exc + string) option"
  wait :: "exc + int"
  walk :: "string \<Rightarrow> (string \<times> string list \<times> string list) list"
  exists :: "string \<Rightarrow> bool"
  post_file :: "string \<Rightarrow> string \<Rightarrow> exc option"
  post_json :: "string \<Rightarrow> string \<Rightarrow> string \<Rightarrow> exc option"
  cleanup :: "exc option"

text \<open>\<open>os.path.join\<close> on POSIX.\<close>

definition join2 :: "string \<Rightarrow> string \<Rightarrow> string" where
  "join2 a b = (if startswith b ''/'' then b
                else if a = [] \<or> endswith a ''/'' then a @ b
                else a @ ''/'' @ b)"

definition path_join :: "string \<Rightarrow> string list \<Rightarrow> string" where
  "path_join a ps = foldl join2 a ps"

section \<open>The upload\<close>

definition upload_to_supabase :: "config \<Rightarrow> env \<Rightarrow> string \<Rightarrow> string \<Rightarrow> exc + string" where
  "upload_to_supabase C E file_path filename =
     (if \<not> exists E file_path then Inl (FileNotFoundError (''File not found: '' @ file_path))
      else
        (let upload_url = SUPABASE_URL C @ ''/storage/v1/object/'' @ SUPABASE_BUCKET C @ ''/'' @ filename
         in case post_file E upload_url file_path of
              Some e \<Rightarrow> Inl e
            | None \<Rightarrow> Inr (SUPABASE_URL C @ ''/storage/v1/object/public/'' @ SUPABASE_BUCKET C
                           @ ''/'' @ filename)))"

section \<open>The job executor\<close>

text \<open>
  The loop of \<open>run_and_upload\<close> that reads the output of the subprocess line by line.
  It ends when \<open>readline\<close> returns nothing, or with the exception a read raises; while the
  subprocess keeps writing, it does not end, and the value is \<open>None\<close>. Its result is the
  exception that ended it, if any, with the state reached.
\<close>

partial_function (option) read_output ::
  "env \<Rightarrow> string \<Rightarrow> nat \<Rightarrow> state \<Rightarrow> (exc option \<times> state) option"
where
  "read_output E conversation_id i s =
     (case readline E i of
        None \<Rightarrow> Some (None, s)
      | Some (Inl e) \<Rightarrow> Some (Some e, s)
      | Some (Inr text) \<Rightarrow>
          read_output E conversation_id (Suc i)
            (case extract_log (strip text) of
               None \<Rightarrow> s
             | Some log_message \<Rightarrow>
                 if log_message \<noteq> [] then publish conversation_id log_message s else s))"

declare read_output.simps [code]

text \<open>The search for the generated video file, after the subprocess has ended.\<close>

definition find_video_files :: "env \<Rightarrow> string \<Rightarrow> string \<Rightarrow> string \<Rightarrow> string list" where
  "find_video_files E conversation_id tmp_dir media_dir =
     (let video_files =
            concat (map (\<lambda>(root, dirs, files).
                           map (\<lambda>file. path_join root [file])
                               (filter (\<lambda>file. endswith file ''.mp4'') files))
                        (walk E media_dir))
      in if video_files = [] then
           (let alt_locations =
                  [path_join tmp_dir [conversation_id @ ''.mp4''],
                   path_join tmp_dir [''media'', ''videos'', conversation_id @ ''.mp4''],
                   path_join tmp_dir [''media'', ''videos'', ''480p15'', conversation_id @ ''.mp4''],
                   path_join tmp_dir [''media'', ''videos'', ''720p30'', conversation_id @ ''.mp4''],
                   path_join tmp_dir [''media'', ''videos'', ''1080p60'', conversation_id @ ''.mp4'']]
            in case List.find (exists E) alt_locations of
                 None \<Rightarrow> []
               | Some location \<Rightarrow> [location])
         else video_files)"

text \<open>
  The body of the \<open>with\<close> block of \<open>run_and_upload\<close>, in the directory \<open>tmp_dir\<close>: the
  exception that leaves it, or the URL it returns, with the state reached. The callback
  is in a \<open>try\<close> of its own, whose \<open>except Exception\<close> drops what it catches.
\<close>

definition run_and_upload_with ::
  "config \<Rightarrow> env \<Rightarrow> string \<Rightarrow> string \<Rightarrow> string \<Rightarrow> (string \<rightharpoonup> json) \<Rightarrow> state
     \<Rightarrow> ((exc + string) \<times> state) option"
where
  "run_and_upload_with C E tmp_dir conversation_id code json_data s =
     (let py_path = path_join tmp_dir [conversation_id @ ''.py''] in
     (case write_file E py_path code of
        Some e \<Rightarrow> Some (Inl e, s)
      | None \<Rightarrow>
     (let media_dir = path_join tmp_dir [''media''] in
     (case makedirs E media_dir of
        Some e \<Rightarrow> Some (Inl e, s)
      | None \<Rightarrow>
     (let cmd = [''manim'', py_path, ''ArchitectureDiagram'', ''--format'', ''mp4'',
                 ''-o'', conversation_id @ ''.mp4'', ''--media_dir'', media_dir, ''-v'', ''INFO''];
          s1 = publish conversation_id ''Starting video generation...'' s in
     (case spawn E cmd tmp_dir of
        Some e \<Rightarrow> Some (Inl e, s1)
      | None \<Rightarrow>
     (case read_output E conversation_id 0 s1 of
        None \<Rightarrow> None
      | Some (Some e, s2) \<Rightarrow> Some (Inl e, s2)
      | Some (None, s2) \<Rightarrow>
     (case wait E of
        Inl e \<Rightarrow> Some (Inl e, s2)
      | Inr return_code \<Rightarrow>
     (if return_code \<noteq> 0 then Some (Inl (CalledProcessError return_code cmd), s2)
      else
     (case find_video_files E conversation_id tmp_dir media_dir of
        [] \<Rightarrow> Some (Inl (FileNotFoundError ''No video file was generated''), s2)
      | video_path # _ \<Rightarrow>
     (let s3 = publish conversation_id ''Uploading video...'' s2 in
     (case upload_to_supabase C E video_path (conversation_id @ ''.mp4'') of
        Inl e \<Rightarrow> Some (Inl e, s3)
      | Inr video_url \<Rightarrow>
     (let s4 = publish conversation_id ''Video generation completed!'' s3 in
     (case (case SPRING_CALLBACK_URL C of
              None \<Rightarrow> None
            | Some callback_url \<Rightarrow>
                if callback_url \<noteq> []
                then post_json E callback_url conversation_id video_url
                else None) of
        None \<Rightarrow> Some (Inr video_url, s4)
      | Some e \<Rightarrow>
          if is_Exception e then Some (Inr video_url, s4) else Some (Inl e, s4)))))))))))))))"

text \<open>
  The body of the \<open>try\<close> of \<open>run_and_upload\<close>: the temporary directory is created, the
  \<open>with\<close> block runs, and the directory is removed when the block is left, by the
  \<open>return\<close> or by an exception. An exception of the removal replaces the outcome of the
  block.
\<close>

definition run_and_upload_try ::
  "config \<Rightarrow> env \<Rightarrow> string \<Rightarrow> string \<Rightarrow> (string \<rightharpoonup> json) \<Rightarrow> state
     \<Rightarrow> ((exc + string) \<times> state) option"
where
  "run_and_upload_try C E conversation_id code json_data s =
     (case mkdtemp E of
        Inl e \<Rightarrow> Some (Inl e, s)
      | Inr tmp_dir \<Rightarrow>
          (case run_and_upload_with C E tmp_dir conversation_id code json_data s of
             None \<Rightarrow> None
           | Some (outcome, s') \<Rightarrow>
               (case cleanup E of
                  None \<Rightarrow> Some (outcome, s')
                | Some e \<Rightarrow> Some (Inl e, s'))))"

text \<open>
  The \<open>except Exception\<close> of \<open>run_and_upload\<close>: the error is published and the exception
  raised again. An exception that is not of class \<open>Exception\<close> passes the clause.
\<close>

definition run_and_upload ::
  "config \<Rightarrow> env \<Rightarrow> string \<Rightarrow> string \<Rightarrow> (string \<rightharpoonup> json) \<Rightarrow> state
     \<Rightarrow> ((exc + string) \<times> state) option"
where
  "run_and_upload C E conversation_id code json_data s =
     (case run_and_upload_try C E conversation_id code json_data s of
        None \<Rightarrow> None
      | Some (Inl e, s') \<Rightarrow>
          if is_Exception e
          then Some (Inl e, publish conversation_id (''Error: '' @ str_exc E e) s')
          else Some (Inl e, s')
      | Some (Inr video_url, s') \<Rightarrow> Some (Inr video_url, s'))"

section \<open>The submit endpoint\<close>

record RunRequest =
  conversation_id :: string
  code :: string
  json_data :: "string \<rightharpoonup> json"

text \<open>
  \<open>run\<close> of \<open>app.py\<close>. The response is the dictionary the handler returns, or the
  \<open>HTTPException\<close> it raises; the \<open>except Exception\<close> of the handler encloses the check of
  the fields as well as the call of the executor; an exception that is not of class
  \<open>Exception\<close> passes it.
\<close>

definition run ::
  "config \<Rightarrow> env \<Rightarrow> RunRequest \<Rightarrow> state \<Rightarrow> ((exc + (string \<times> string) list) \<times> state) option"
where
  "run C E req s =
     (case (if conversation_id req = [] \<or> code req = []
            then Some (Inl (HTTPException 400 ''conversation_id and code are required''), s)
            else (case run_and_upload C E (conversation_id req) (code req) (json_data req) s of
                    None \<Rightarrow> None
                  | Some (Inl e, s') \<Rightarrow> Some (Inl e, s')
                  | Some (Inr url, s') \<Rightarrow>
                      Some (Inr [(''status'', ''success''), (''url'', url),
                                 (''conversation_id'', conversation_id req)], s'))) of
        None \<Rightarrow> None
      | Some (Inl e, s') \<Rightarrow>
          if is_Exception e then Some (Inl (HTTPException 500 (str_exc E e)), s')
          else Some (Inl e, s')
      | Some (Inr response, s') \<Rightarrow> Some (Inr response, s'))"

section \<open>The streaming endpoint\<close>

text \<open>
  The generator \<open>event_gen\<close> is either suspended in its loop, holding its queue, or
  finished. One round of the loop is \<open>event_gen_next\<close>: it yields one frame.
  \<open>asyncio.wait_for(q.get(), timeout=30.0)\<close> returns the head of the queue when there is
  one; a round that starts on an empty queue stands for an idle window of 30 seconds in
  which nothing was put, and \<open>wait_for\<close> raises \<open>TimeoutError\<close>. A message put during the
  window is a \<open>publish\<close> before the round. When the loop is left, the \<open>finally\<close> clause
  runs \<open>subscribers.pop(conversationId, None)\<close>.
\<close>

datatype stream = Open nat | Closed

definition event_gen_start :: "string \<Rightarrow> state \<Rightarrow> stream \<times> state" where
  "event_gen_start conversationId s = (case register conversationId s of (q, s1) \<Rightarrow> (Open q, s1))"









section \<open>Notions used to state the properties\<close>

text \<open>
  What a pattern accepts, said without the search: a literal accepts itself, \<open>.*\<close> and
  \<open>.*?\<close> accept any run of characters of their class, and \<open>(\d+)\<close> a run that is not empty.
\<close>

fun accepts :: "atom list \<Rightarrow> string \<Rightarrow> bool" where
  "accepts [] u = (u = [])"
| "accepts (Lit c # p) u = (\<exists>w. u = c # w \<and> accepts p w)"
| "accepts (Greedy k # p) u = (\<exists>v w. u = v @ w \<and> (\<forall>x \<in> set v. in_class k x) \<and> accepts p w)"
| "accepts (Lazy k # p) u = (\<exists>v w. u = v @ w \<and> (\<forall>x \<in> set v. in_class k x) \<and> accepts p w)"
| "accepts (Group k # p) u =
     (\<exists>v w. u = v @ w \<and> v \<noteq> [] \<and> (\<forall>x \<in> set v. in_class k x) \<and> accepts p w)"

text \<open>
  The progress pattern of the second rule, \<open>Animation {n}: ... {p}%|...\<close>, on one line:
  the numbers are runs of digits that are not empty, and no newline stands before the
  percentage.
\<close>

definition progress_line :: "string \<Rightarrow> bool" where
  "progress_line line =
     (\<exists>pre n mid p post.
        line = pre @ ''Animation '' @ n @ '':'' @ mid @ p @ ''%|'' @ post \<and>
        n \<noteq> [] \<and> (\<forall>c \<in> set n. in_class Digit c) \<and>
        p \<noteq> [] \<and> (\<forall>c \<in> set p. in_class Digit c) \<and>
        (\<forall>c \<in> set pre \<union> set mid. c \<noteq> CHR 0x0A))"

text \<open>
  A terminal message, in the words of the specification: the completion sentinel, or a
  message whose trimmed lowercase form begins with \<open>error:\<close>.
\<close>

definition terminal :: "string \<Rightarrow> bool" where
  "terminal msg =
     (lower (strip msg) = ''video generation completed!'' \<or> startswith (lower (strip msg)) ''error:'')"

text \<open>The progress notices the classifier produces for the lines the executor reads.\<close>

definition notices :: "string list \<Rightarrow> string list" where
  "notices lines = List.map_filter (\<lambda>text. extract_log (strip text)) lines"

text \<open>Publishing several messages, one after the other.\<close>

definition publish_all :: "string \<Rightarrow> string list \<Rightarrow> state \<Rightarrow> state" where
  "publish_all job_id msgs s = foldl (\<lambda>s msg. publish job_id msg s) s msgs"

text \<open>
  A subprocess that writes the lines \<open>lines\<close> and closes its output; the state of a fresh
  process; a configuration without callback; and an environment in which every step
  succeeds, the subprocess writes \<open>lines\<close> and one video file is found.
\<close>

definition feed :: "string list \<Rightarrow> nat \<Rightarrow> (exc + string) option" where
  "feed lines i = (if i < length lines then Some (Inr (lines ! i)) else None)"

definition empty_state :: state where
  "empty_state = \<lparr>subscribers = Map.empty, queues = (\<lambda>q. []), allocated = 0\<rparr>"

definition example_config :: config where
  "example_config = \<lparr>SUPABASE_URL = ''https://db'', SUPABASE_API_KEY = ''key'',
     SUPABASE_BUCKET = ''videos'', SPRING_CALLBACK_URL = None\<rparr>"

definition example_env :: "string list \<Rightarrow> env" where
  "example_env lines =
     \<lparr>str_exc = (\<lambda>e. case e of
                      CalledProcessError n cmd \<Rightarrow> ''Command failed''
                    | FileNotFoundError m \<Rightarrow> m
                    | HTTPException n d \<Rightarrow> d
                    | Raised m \<Rightarrow> m
                    | CancelledError \<Rightarrow> []
                    | KeyboardInterrupt \<Rightarrow> []),
      mkdtemp = Inr ''/tmp/job'',
      write_file = (\<lambda>path text. None),
      makedirs = (\<lambda>path. None),
      spawn = (\<lambda>cmd cwd. None),
      readline = feed lines,
      wait = Inr 0,
      walk = (\<lambda>top. [(top, [''videos''], []), (top @ ''/videos'', [], [''out.mp4''])]),
      exists = (\<lambda>path. True),
      post_file = (\<lambda>url path. None),
      post_json = (\<lambda>url job_id video_url. None),
      cleanup = None\<rparr>"

section \<open>Lemmas on strings and on the matcher\<close>

lemma contains_iff_sublist: "contains w s \<longleftrightarrow> sublist w s"
  by (induction s) (auto simp: sublist_Cons_right)

lemma matches_lits:
  "matches (map Lit w @ p) s = (if prefix w s then matches p (drop (length w) s) else None)"
proof (induction w arbitrary: s)
  case Nil
  then show ?case by simp
next
  case (Cons c w)
  then show ?case by (cases s) auto
qed

lemma capture_end:
  "capture k [] acc s = Some [acc @ takeWhile (in_class k) s]"
  by (induction s arbitrary: acc) auto

lemma matches_re_animation:
  "matches re_animation s =
     (if prefix ''Animation '' s \<and> takeWhile (in_class Digit) (drop (length ''Animation '') s) \<noteq> []
      then Some [takeWhile (in_class Digit) (drop (length ''Animation '') s)] else None)"
proof -
  have "matches [Group Digit] t =
          (if takeWhile (in_class Digit) t \<noteq> [] then Some [takeWhile (in_class Digit) t] else None)" for t
    by (cases t) (simp_all add: capture_end del: in_class.simps)
  then show ?thesis
    unfolding re_animation_def matches_lits by (simp del: in_class.simps)
qed

lemma re_search_skip:
  "\<forall>i < length pre. matches p (drop i (pre @ s)) = None \<Longrightarrow> re_search p (pre @ s) = re_search p s"
proof (induction pre)
  case Nil
  then show ?case by simp
next
  case (Cons x pre)
  have "matches p (x # pre @ s) = None" using Cons.prems by force
  moreover have "\<forall>i < length pre. matches p (drop i (pre @ s)) = None"
    using Cons.prems by force
  ultimately show ?case using Cons.IH by simp
qed

lemma re_search_here: "matches p s = Some g \<Longrightarrow> re_search p s = Some g"
  by (cases s) simp_all


lemma matches_re_animation_Some:
  assumes "matches re_animation t \<noteq> None"
  shows "\<exists>d u. in_class Digit d \<and> t = (''Animation '' @ [d]) @ u"
proof -
  from assms have pre: "prefix ''Animation '' t"
    and dig: "takeWhile (in_class Digit) (drop (length ''Animation '') t) \<noteq> []"
    by (auto simp: matches_re_animation split: if_splits)
  from pre obtain u where u: "t = ''Animation '' @ u" by (auto simp: prefix_def)
  have "drop (length ''Animation '') t = u" by (subst u) simp
  with dig have "takeWhile (in_class Digit) u \<noteq> []" by simp
  then obtain d u' where "u = d # u'" "in_class Digit d"
    by (cases u) (auto simp del: in_class.simps split: if_splits)
  with u show ?thesis by auto
qed

lemma sublist_window:
  assumes i: "i < length pre" and d: "drop i (pre @ a @ rest) = (a @ [d]) @ u"
  shows "sublist (a @ [d]) (pre @ a)"
proof -
  have e: "take i (pre @ a @ rest) = take i pre" using i by simp
  have "pre @ a @ rest = take i (pre @ a @ rest) @ drop i (pre @ a @ rest)"
    by (simp only: append_take_drop_id)
  then have "pre @ a @ rest = take i pre @ (a @ [d]) @ u"
    by (simp only: e d)
  then have "(take i pre @ a @ [d]) @ u = (pre @ a) @ rest"
    by simp
  then have p1: "prefix (pre @ a) ((take i pre @ a @ [d]) @ u)"
    by (rule prefixI)
  have p2: "prefix (take i pre @ a @ [d]) ((take i pre @ a @ [d]) @ u)"
    by simp
  have "length (take i pre @ a @ [d]) \<le> length (pre @ a)"
    using i by simp
  with p2 p1 have "prefix (take i pre @ a @ [d]) (pre @ a)"
    by (rule prefix_length_prefix)
  then obtain v where "pre @ a = take i pre @ (a @ [d]) @ v"
    by (auto simp: prefix_def)
  then show ?thesis unfolding sublist_def by blast
qed

lemma no_match_before:
  assumes no: "\<not> (\<exists>d. in_class Digit d \<and> sublist (''Animation '' @ [d]) (pre @ ''Animation ''))"
    and i: "i < length pre"
  shows "matches re_animation (drop i (pre @ ''Animation '' @ rest)) = None"
proof (rule ccontr)
  assume "matches re_animation (drop i (pre @ ''Animation '' @ rest)) \<noteq> None"
  then obtain d u where d: "in_class Digit d"
    and t: "drop i (pre @ ''Animation '' @ rest) = (''Animation '' @ [d]) @ u"
    using matches_re_animation_Some by blast
  from i t have "sublist (''Animation '' @ [d]) (pre @ ''Animation '')"
    by (rule sublist_window)
  with no d show False by blast
qed

section \<open>The log classifier: examples\<close>

text \<open>
  Claim C7, as amended. The classifier maps the line
  \<open>Animation 3: rendering 42%|something\<close> to \<open>Animation 3 progress: 42%\<close>. It maps a line
  that contains \<open>Partial\<close> to \<open>Animation 7 loaded\<close> when \<open>Animation 7\<close> occurs in it, no
  digit follows the \<open>7\<close>, and no \<open>Animation \<close> followed by a digit occurs further left: the
  number taken is the whole run of digits after the leftmost such occurrence.
\<close>

theorem extract_log_examples:
  "extract_log ''Animation 3: rendering 42%|something'' = Some ''Animation 3 progress: 42%'' \<and>
   (line = pre @ ''Animation 7'' @ post \<and> sublist ''Partial'' line \<and>
    \<not> (\<exists>d. in_class Digit d \<and> sublist (''Animation '' @ [d]) (pre @ ''Animation '')) \<and>
    (post = [] \<or> \<not> in_class Digit (hd post))
    \<longrightarrow> extract_log line = Some ''Animation 7 loaded'')"
proof (intro conjI impI)
  show "extract_log ''Animation 3: rendering 42%|something'' = Some ''Animation 3 progress: 42%''"
    by code_simp
next
  assume h: "line = pre @ ''Animation 7'' @ post \<and> sublist ''Partial'' line \<and>
    \<not> (\<exists>d. in_class Digit d \<and> sublist (''Animation '' @ [d]) (pre @ ''Animation '')) \<and>
    (post = [] \<or> \<not> in_class Digit (hd post))"
  from h have line: "line = pre @ ''Animation '' @ (''7'' @ post)" by simp
  from h have partial: "sublist ''Partial'' line" by blast
  from h have no: "\<not> (\<exists>d. in_class Digit d \<and> sublist (''Animation '' @ [d]) (pre @ ''Animation ''))"
    by blast
  from h have post: "post = [] \<or> \<not> in_class Digit (hd post)" by blast
  have "line = pre @ ''Animation'' @ ('' 7'' @ post)" using line by simp
  then have "sublist ''Animation'' line" unfolding sublist_def by blast
  then have c1: "contains ''Animation'' line" by (simp add: contains_iff_sublist)
  have c2: "contains ''Partial'' line" using partial by (simp add: contains_iff_sublist)
  have "\<forall>i < length pre. matches re_animation (drop i (pre @ ''Animation '' @ (''7'' @ post))) = None"
    using no no_match_before by blast
  then have "re_search re_animation line = re_search re_animation (''Animation '' @ (''7'' @ post))"
    unfolding line by (rule re_search_skip)
  moreover have "takeWhile (in_class Digit) post = []"
    using post by (cases post) (auto simp del: in_class.simps)
  then have "matches re_animation (''Animation '' @ (''7'' @ post)) = Some [''7'']"
    by (simp add: matches_re_animation)
  ultimately have "re_search re_animation line = Some [''7'']"
    by (simp add: re_search_here)
  with c1 c2 show "extract_log line = Some ''Animation 7 loaded''"
    by (simp add: extract_log_def)
qed

theorem extract_log_examples_witness:
  "extract_log ''... Animation 7 Partial ...'' = Some ''Animation 7 loaded''"
  using extract_log_examples [of "''... Animation 7 Partial ...''" "''... ''" "'' Partial ...''"]
  by (simp add: sublist_Cons_right)

theorem extract_log_first_number_counterexample:
  "sublist ''Animation 7'' ''Animation 70 Partial'' \<and> sublist ''Partial'' ''Animation 70 Partial'' \<and>
   extract_log ''Animation 70 Partial'' = Some ''Animation 70 loaded''"
  by (simp add: sublist_Cons_right) code_simp


section \<open>The matcher finds exactly what the pattern accepts\<close>

lemma accepts_GreedyI:
  "\<forall>y \<in> set a. in_class k y \<Longrightarrow> accepts p w \<Longrightarrow> accepts (Greedy k # p) (a @ w)"
  by (simp del: in_class.simps) blast

lemma accepts_LazyI:
  "\<forall>y \<in> set a. in_class k y \<Longrightarrow> accepts p w \<Longrightarrow> accepts (Lazy k # p) (a @ w)"
  by (simp del: in_class.simps) blast

lemma accepts_GroupI:
  "a \<noteq> [] \<Longrightarrow> \<forall>y \<in> set a. in_class k y \<Longrightarrow> accepts p w \<Longrightarrow> accepts (Group k # p) (a @ w)"
  by (simp del: in_class.simps) blast

lemma accepts_GreedyE:
  assumes "accepts (Greedy k # p) u"
  obtains a w where "u = a @ w" "\<forall>y \<in> set a. in_class k y" "accepts p w"
  using assms by (simp del: in_class.simps) blast

lemma accepts_LazyE:
  assumes "accepts (Lazy k # p) u"
  obtains a w where "u = a @ w" "\<forall>y \<in> set a. in_class k y" "accepts p w"
  using assms by (simp del: in_class.simps) blast

lemma accepts_GroupE:
  assumes "accepts (Group k # p) u"
  obtains a w where "u = a @ w" "a \<noteq> []" "\<forall>y \<in> set a. in_class k y" "accepts p w"
  using assms by (simp del: in_class.simps) blast

lemma matches_sound:
  "matches p s = Some g \<Longrightarrow> \<exists>u v. s = u @ v \<and> accepts p u"
  "capture k p acc s = Some g \<Longrightarrow>
     \<exists>a u v. s = a @ u @ v \<and> (\<forall>x \<in> set a. in_class k x) \<and> accepts p u"
proof (induction p s and k p acc s arbitrary: g and g rule: matches_capture.induct)
  case (1 s)
  have "s = [] @ s \<and> accepts [] []" by simp
  then show ?case by blast
next
  case (2 c p)
  then show ?case by simp
next
  case (3 c p x xs)
  from "3.prems" have xc: "x = c" and m: "matches p xs = Some g"
    by (simp_all split: if_splits)
  from "3.IH" [OF xc m] obtain u v where "xs = u @ v" "accepts p u" by blast
  then have "x # xs = (c # u) @ v \<and> accepts (Lit c # p) (c # u)" using xc by simp
  then show ?case by blast
next
  case (4 k p)
  from "4.prems" have "matches p [] = Some g" by simp
  from "4.IH" [OF this] obtain u v where uv: "[] = u @ v" "accepts p u" by blast
  have "accepts (Greedy k # p) ([] @ u)" by (rule accepts_GreedyI) (simp_all add: uv(2))
  with uv show ?case by auto
next
  case (5 k p x xs)
  show ?case
  proof (cases "in_class k x \<and> matches (Greedy k # p) xs \<noteq> None")
    case True
    then obtain g' where k: "in_class k x" and g': "matches (Greedy k # p) xs = Some g'" by auto
    from "5.IH"(1) [OF k g'] obtain u v where uv: "xs = u @ v" "accepts (Greedy k # p) u" by blast
    from uv(2) obtain a w where aw: "u = a @ w" "\<forall>y \<in> set a. in_class k y" "accepts p w"
      by (rule accepts_GreedyE)
    have "accepts (Greedy k # p) ((x # a) @ w)"
      by (rule accepts_GreedyI) (use aw k in simp_all)
    moreover have "x # xs = ((x # a) @ w) @ v" using uv aw by simp
    ultimately show ?thesis by blast
  next
    case False
    show ?thesis
    proof (cases "in_class k x")
      case True
      with False have n: "matches (Greedy k # p) xs = None" by simp
      with True "5.prems" have m: "matches p (x # xs) = Some g" by simp
      from "5.IH"(2) [OF True n m] obtain u v where uv: "x # xs = u @ v" "accepts p u" by blast
      have "accepts (Greedy k # p) ([] @ u)" by (rule accepts_GreedyI) (simp_all add: uv(2))
      with uv show ?thesis by (metis append_Nil)
    next
      case F: False
      with "5.prems" have m: "matches p (x # xs) = Some g" by simp
      from "5.IH"(3) [OF F m] obtain u v where uv: "x # xs = u @ v" "accepts p u" by blast
      have "accepts (Greedy k # p) ([] @ u)" by (rule accepts_GreedyI) (simp_all add: uv(2))
      with uv show ?thesis by (metis append_Nil)
    qed
  qed
next
  case (6 k p)
  from "6.prems" have "matches p [] = Some g" by simp
  from "6.IH" [OF this] obtain u v where uv: "[] = u @ v" "accepts p u" by blast
  have "accepts (Lazy k # p) ([] @ u)" by (rule accepts_LazyI) (simp_all add: uv(2))
  with uv show ?case by auto
next
  case (7 k p x xs)
  show ?case
  proof (cases "matches p (x # xs)")
    case (Some g')
    from "7.IH"(1) [OF Some] obtain u v where uv: "x # xs = u @ v" "accepts p u" by blast
    have "accepts (Lazy k # p) ([] @ u)" by (rule accepts_LazyI) (simp_all add: uv(2))
    with uv show ?thesis by (metis append_Nil)
  next
    case None
    with "7.prems" have k: "in_class k x" and m: "matches (Lazy k # p) xs = Some g"
      by (simp_all split: if_splits)
    from "7.IH"(2) [OF None k m] obtain u v where uv: "xs = u @ v" "accepts (Lazy k # p) u" by blast
    from uv(2) obtain a w where aw: "u = a @ w" "\<forall>y \<in> set a. in_class k y" "accepts p w"
      by (rule accepts_LazyE)
    have "accepts (Lazy k # p) ((x # a) @ w)"
      by (rule accepts_LazyI) (use aw k in simp_all)
    moreover have "x # xs = ((x # a) @ w) @ v" using uv aw by simp
    ultimately show ?thesis by blast
  qed
next
  case (8 k p)
  then show ?case by simp
next
  case (9 k p x xs)
  from "9.prems" have k: "in_class k x" and c: "capture k p [x] xs = Some g"
    by (simp_all split: if_splits)
  from "9.IH" [OF k c] obtain a u v
    where a: "xs = a @ u @ v" "\<forall>y \<in> set a. in_class k y" "accepts p u"
    by blast
  have "accepts (Group k # p) ((x # a) @ u)"
    by (rule accepts_GroupI) (use a k in simp_all)
  moreover have "x # xs = ((x # a) @ u) @ v" using a by simp
  ultimately show ?case by blast
next
  case (10 k p acc)
  from "10.prems" obtain g' where m: "matches p [] = Some g'" by auto
  from "10.IH" [OF m] obtain u v where "[] = u @ v" "accepts p u" by blast
  then have "[] = [] @ u @ v \<and> (\<forall>x \<in> set []. in_class k x) \<and> accepts p u" by simp
  then show ?case by blast
next
  case (11 k p acc x xs)
  show ?case
  proof (cases "in_class k x \<and> capture k p (acc @ [x]) xs \<noteq> None")
    case True
    then obtain g' where k: "in_class k x" and c: "capture k p (acc @ [x]) xs = Some g'" by auto
    from "11.IH"(1) [OF k c] obtain a u v
      where a: "xs = a @ u @ v" "\<forall>y \<in> set a. in_class k y" "accepts p u"
      by blast
    have "x # xs = (x # a) @ u @ v \<and> (\<forall>y \<in> set (x # a). in_class k y) \<and> accepts p u"
      using a k by simp
    then show ?thesis by blast
  next
    case False
    show ?thesis
    proof (cases "in_class k x")
      case True
      with False have n: "capture k p (acc @ [x]) xs = None" by simp
      with True "11.prems" obtain g' where m: "matches p (x # xs) = Some g'" by auto
      from "11.IH"(2) [OF True n m] obtain u v where "x # xs = u @ v" "accepts p u" by blast
      then have "x # xs = [] @ u @ v \<and> (\<forall>y \<in> set []. in_class k y) \<and> accepts p u" by simp
      then show ?thesis by blast
    next
      case F: False
      with "11.prems" obtain g' where m: "matches p (x # xs) = Some g'" by auto
      from "11.IH"(3) [OF F m] obtain u v where "x # xs = u @ v" "accepts p u" by blast
      then have "x # xs = [] @ u @ v \<and> (\<forall>y \<in> set []. in_class k y) \<and> accepts p u" by simp
      then show ?thesis by blast
    qed
  qed
qed


lemma greedy_complete:
  "\<forall>y \<in> set a. in_class k y \<Longrightarrow> matches p w \<noteq> None \<Longrightarrow> matches (Greedy k # p) (a @ w) \<noteq> None"
proof (induction a)
  case Nil
  then show ?case by (cases w) (auto split: option.splits)
next
  case (Cons x a)
  then show ?case by (auto split: option.splits)
qed

lemma lazy_complete:
  "\<forall>y \<in> set a. in_class k y \<Longrightarrow> matches p w \<noteq> None \<Longrightarrow> matches (Lazy k # p) (a @ w) \<noteq> None"
proof (induction a)
  case Nil
  then show ?case by (cases w) (auto split: option.splits)
next
  case (Cons x a)
  then show ?case by (auto split: option.splits)
qed

lemma capture_complete:
  "\<forall>y \<in> set a. in_class k y \<Longrightarrow> matches p w \<noteq> None \<Longrightarrow> capture k p acc (a @ w) \<noteq> None"
proof (induction a arbitrary: acc)
  case Nil
  then show ?case by (cases w) (auto split: option.splits)
next
  case (Cons x a)
  have "capture k p (acc @ [x]) (a @ w) \<noteq> None"
    using Cons by simp
  then show ?case using Cons.prems by (auto split: option.splits)
qed

lemma matches_complete:
  "accepts p u \<Longrightarrow> matches p (u @ v) \<noteq> None"
proof (induction p arbitrary: u)
  case Nil
  then show ?case by simp
next
  case (Cons a p)
  show ?case
  proof (cases a)
    case (Lit c)
    with Cons.prems obtain w where "u = c # w" "accepts p w" by auto
    with Cons.IH Lit show ?thesis by simp
  next
    case (Greedy k)
    with Cons.prems obtain b w where b: "u = b @ w" "\<forall>y \<in> set b. in_class k y" "accepts p w"
      by (auto elim: accepts_GreedyE)
    from b(3) have "matches p (w @ v) \<noteq> None" by (rule Cons.IH)
    with b(2) have "matches (Greedy k # p) (b @ w @ v) \<noteq> None" by (rule greedy_complete)
    then show ?thesis using Greedy b(1) by simp
  next
    case (Lazy k)
    with Cons.prems obtain b w where b: "u = b @ w" "\<forall>y \<in> set b. in_class k y" "accepts p w"
      by (auto elim: accepts_LazyE)
    from b(3) have "matches p (w @ v) \<noteq> None" by (rule Cons.IH)
    with b(2) have "matches (Lazy k # p) (b @ w @ v) \<noteq> None" by (rule lazy_complete)
    then show ?thesis using Lazy b(1) by simp
  next
    case (Group k)
    with Cons.prems obtain b w
      where b: "u = b @ w" "b \<noteq> []" "\<forall>y \<in> set b. in_class k y" "accepts p w"
      by (auto elim: accepts_GroupE)
    from b(2) obtain x b' where xb: "b = x # b'" by (cases b) auto
    from b(4) have m: "matches p (w @ v) \<noteq> None" by (rule Cons.IH)
    have "\<forall>y \<in> set b'. in_class k y" using b(3) xb by simp
    from this m have "capture k p [x] (b' @ w @ v) \<noteq> None" by (rule capture_complete)
    moreover have "in_class k x" using b(3) xb by simp
    ultimately show ?thesis using Group b(1) xb by simp
  qed
qed

lemma matches_iff_accepts:
  "matches p s \<noteq> None \<longleftrightarrow> (\<exists>u v. s = u @ v \<and> accepts p u)"
  using matches_sound(1) matches_complete by blast

lemma accepts_lits:
  "accepts (map Lit w @ p) u \<longleftrightarrow> (\<exists>t. u = w @ t \<and> accepts p t)"
  by (induction w arbitrary: u) auto

lemma accepts_LitE:
  assumes "accepts (Lit c # p) u"
  obtains w where "u = c # w" "accepts p w"
  using assms by auto

lemma accepts_progress_shape:
  "accepts (Greedy k1 # (map Lit w @ (Group k2 # Lit c1 # Lazy k3 # Group k4 # Lit c2 # Lit c3 # [Greedy k5]))) u
   \<longleftrightarrow>
     (\<exists>pre n mid p post.
        u = pre @ w @ n @ [c1] @ mid @ p @ [c2, c3] @ post \<and>
        n \<noteq> [] \<and> (\<forall>c \<in> set n. in_class k2 c) \<and>
        p \<noteq> [] \<and> (\<forall>c \<in> set p. in_class k4 c) \<and>
        (\<forall>c \<in> set pre. in_class k1 c) \<and> (\<forall>c \<in> set mid. in_class k3 c) \<and>
        (\<forall>c \<in> set post. in_class k5 c))"
  (is "?L \<longleftrightarrow> ?R")
proof
  assume ?L
  then obtain pre t0 where e0: "u = pre @ t0" "\<forall>c \<in> set pre. in_class k1 c"
    and a0: "accepts (map Lit w @ (Group k2 # Lit c1 # Lazy k3 # Group k4 # Lit c2 # Lit c3 # [Greedy k5])) t0"
    by (rule accepts_GreedyE)
  from a0 obtain t1 where e1: "t0 = w @ t1"
    and a1: "accepts (Group k2 # Lit c1 # Lazy k3 # Group k4 # Lit c2 # Lit c3 # [Greedy k5]) t1"
    unfolding accepts_lits by blast
  from a1 obtain n t2 where e2: "t1 = n @ t2" "n \<noteq> []" "\<forall>c \<in> set n. in_class k2 c"
    and a2: "accepts (Lit c1 # Lazy k3 # Group k4 # Lit c2 # Lit c3 # [Greedy k5]) t2"
    by (rule accepts_GroupE)
  from a2 obtain t3 where e3: "t2 = c1 # t3"
    and a3: "accepts (Lazy k3 # Group k4 # Lit c2 # Lit c3 # [Greedy k5]) t3"
    by (rule accepts_LitE)
  from a3 obtain mid t4 where e4: "t3 = mid @ t4" "\<forall>c \<in> set mid. in_class k3 c"
    and a4: "accepts (Group k4 # Lit c2 # Lit c3 # [Greedy k5]) t4"
    by (rule accepts_LazyE)
  from a4 obtain p t5 where e5: "t4 = p @ t5" "p \<noteq> []" "\<forall>c \<in> set p. in_class k4 c"
    and a5: "accepts (Lit c2 # Lit c3 # [Greedy k5]) t5"
    by (rule accepts_GroupE)
  from a5 obtain t5' where e6: "t5 = c2 # t5'" and a6: "accepts (Lit c3 # [Greedy k5]) t5'"
    by (rule accepts_LitE)
  from a6 obtain t6 where e9: "t5' = c3 # t6" and a7: "accepts [Greedy k5] t6"
    by (rule accepts_LitE)
  from a7 obtain post t7 where e7: "t6 = post @ t7" "\<forall>c \<in> set post. in_class k5 c"
    and a8: "accepts [] t7"
    by (rule accepts_GreedyE)
  from a8 have e8: "t7 = []" by simp
  have "u = pre @ w @ n @ [c1] @ mid @ p @ [c2, c3] @ post"
    using e0(1) e1 e2(1) e3 e4(1) e5(1) e6 e9 e7(1) e8 by simp
  with e0(2) e2(2,3) e4(2) e5(2,3) e7(2) show ?R by blast
next
  assume ?R
  then obtain pre n mid p post where
    u: "u = pre @ w @ n @ [c1] @ mid @ p @ [c2, c3] @ post"
    and n: "n \<noteq> []" "\<forall>c \<in> set n. in_class k2 c"
    and p: "p \<noteq> []" "\<forall>c \<in> set p. in_class k4 c"
    and pre: "\<forall>c \<in> set pre. in_class k1 c" and mid: "\<forall>c \<in> set mid. in_class k3 c"
    and post: "\<forall>c \<in> set post. in_class k5 c"
    by blast
  have "accepts [Greedy k5] (post @ [])"
    using post by (intro accepts_GreedyI) simp_all
  then have "accepts (Lit c2 # Lit c3 # [Greedy k5]) ([c2, c3] @ post)"
    by simp
  with p have "accepts (Group k4 # Lit c2 # Lit c3 # [Greedy k5]) (p @ [c2, c3] @ post)"
    by (intro accepts_GroupI)
  with mid have "accepts (Lazy k3 # Group k4 # Lit c2 # Lit c3 # [Greedy k5]) (mid @ p @ [c2, c3] @ post)"
    by (intro accepts_LazyI)
  then have "accepts (Lit c1 # Lazy k3 # Group k4 # Lit c2 # Lit c3 # [Greedy k5])
               ([c1] @ mid @ p @ [c2, c3] @ post)"
    by simp
  with n have "accepts (Group k2 # Lit c1 # Lazy k3 # Group k4 # Lit c2 # Lit c3 # [Greedy k5])
               (n @ [c1] @ mid @ p @ [c2, c3] @ post)"
    by (intro accepts_GroupI)
  then have "accepts (map Lit w @ (Group k2 # Lit c1 # Lazy k3 # Group k4 # Lit c2 # Lit c3 # [Greedy k5]))
               (w @ n @ [c1] @ mid @ p @ [c2, c3] @ post)"
    unfolding accepts_lits by blast
  with pre show ?L unfolding u by (intro accepts_GreedyI)
qed


lemma re_progress_line_shape:
  "re_progress_line =
     Greedy Dot # (map Lit ''Animation '' @
       (Group Digit # Lit CHR '':'' # Lazy Dot # Group Digit # Lit CHR ''%'' # Lit CHR ''|'' # [Greedy Dot]))"
  by (simp add: re_progress_line_def re_progress_def)

lemma accepts_re_progress_line:
  "accepts re_progress_line u \<longleftrightarrow>
     (\<exists>pre n mid p post.
        u = pre @ ''Animation '' @ n @ [CHR '':''] @ mid @ p @ [CHR ''%'', CHR ''|''] @ post \<and>
        n \<noteq> [] \<and> (\<forall>c \<in> set n. in_class Digit c) \<and>
        p \<noteq> [] \<and> (\<forall>c \<in> set p. in_class Digit c) \<and>
        (\<forall>c \<in> set pre. in_class Dot c) \<and> (\<forall>c \<in> set mid. in_class Dot c) \<and>
        (\<forall>c \<in> set post. in_class Dot c))"
  by (subst re_progress_line_shape) (rule accepts_progress_shape)

lemma progress_line_iff: "progress_line line \<longleftrightarrow> re_match re_progress_line line \<noteq> None"
proof
  assume "progress_line line"
  then obtain pre n mid p post where
    l: "line = pre @ ''Animation '' @ n @ '':'' @ mid @ p @ ''%|'' @ post"
    and n: "n \<noteq> []" "\<forall>c \<in> set n. in_class Digit c"
    and p: "p \<noteq> []" "\<forall>c \<in> set p. in_class Digit c"
    and pre: "\<forall>c \<in> set pre. c \<noteq> CHR 0x0A" and mid: "\<forall>c \<in> set mid. c \<noteq> CHR 0x0A"
    unfolding progress_line_def ball_Un by (elim exE conjE) (rule that, assumption+)
  from pre have pre: "\<forall>c \<in> set pre. in_class Dot c" by simp
  from mid have mid: "\<forall>c \<in> set mid. in_class Dot c" by simp
  have post: "\<forall>c \<in> set ([]::string). in_class Dot c" by simp
  let ?u = "pre @ ''Animation '' @ n @ [CHR '':''] @ mid @ p @ [CHR ''%'', CHR ''|''] @ []"
  have "accepts re_progress_line ?u"
    unfolding accepts_re_progress_line
    using n p pre mid post by (intro exI conjI) (rule refl, assumption+)
  then have "matches re_progress_line (?u @ post) \<noteq> None"
    by (rule matches_complete)
  moreover have "?u @ post = line" unfolding l by simp
  ultimately show "re_match re_progress_line line \<noteq> None"
    unfolding re_match_def by simp
next
  assume "re_match re_progress_line line \<noteq> None"
  then have "\<exists>u v. line = u @ v \<and> accepts re_progress_line u"
    unfolding re_match_def matches_iff_accepts .
  then obtain u v where uv: "line = u @ v" and a: "accepts re_progress_line u"
    by blast
  from a obtain pre n mid p post where
    u: "u = pre @ ''Animation '' @ n @ [CHR '':''] @ mid @ p @ [CHR ''%'', CHR ''|''] @ post"
    and n: "n \<noteq> []" "\<forall>c \<in> set n. in_class Digit c"
    and p: "p \<noteq> []" "\<forall>c \<in> set p. in_class Digit c"
    and pre: "\<forall>c \<in> set pre. in_class Dot c" and mid: "\<forall>c \<in> set mid. in_class Dot c"
    unfolding accepts_re_progress_line by blast
  have l: "line = pre @ ''Animation '' @ n @ '':'' @ mid @ p @ ''%|'' @ (post @ v)"
    unfolding uv u by simp
  have nl: "\<forall>c \<in> set pre \<union> set mid. c \<noteq> CHR 0x0A"
    using pre mid by auto
  show "progress_line line"
    unfolding progress_line_def
    using l n p nl by (intro exI conjI) (assumption+)
qed


section \<open>The log classifier: lines that match no rule\<close>

text \<open>
  Claim C8. \<open>extract_log\<close> is a function of the line alone, with a value for every line:
  each of its searches ends, and none of its steps raises. A line that matches none of the
  rules (not both \<open>Animation\<close> and \<open>Partial\<close>, not the progress pattern, none of
  \<open>File ready at\<close>, \<open>Rendered ArchitectureDiagram\<close>, \<open>Played\<close>, \<open>ERROR\<close>,
  \<open>Exception\<close>) gets no message.
\<close>

theorem extract_log_no_rule:
  "\<not> (sublist ''Animation'' line \<and> sublist ''Partial'' line) \<and>
   \<not> progress_line line \<and>
   \<not> sublist ''File ready at'' line \<and>
   \<not> sublist ''Rendered ArchitectureDiagram'' line \<and>
   \<not> sublist ''Played'' line \<and>
   \<not> (sublist ''ERROR'' line \<or> sublist ''Exception'' line)
   \<Longrightarrow> extract_log line = None"
  unfolding progress_line_iff contains_iff_sublist [symmetric] extract_log_def
  by (simp only: if_False if_not_P simp_thms)

theorem extract_log_no_rule_witness:
  "extract_log ''INFO Writing frame 12 to disk'' = None"
proof -
  have "\<not> (contains ''Animation'' ''INFO Writing frame 12 to disk'' \<and>
           contains ''Partial'' ''INFO Writing frame 12 to disk'') \<and>
        \<not> re_match re_progress_line ''INFO Writing frame 12 to disk'' \<noteq> None \<and>
        \<not> contains ''File ready at'' ''INFO Writing frame 12 to disk'' \<and>
        \<not> contains ''Rendered ArchitectureDiagram'' ''INFO Writing frame 12 to disk'' \<and>
        \<not> contains ''Played'' ''INFO Writing frame 12 to disk'' \<and>
        \<not> (contains ''ERROR'' ''INFO Writing frame 12 to disk'' \<or>
           contains ''Exception'' ''INFO Writing frame 12 to disk'')"
    by code_simp
  then show ?thesis
    unfolding progress_line_iff [symmetric] contains_iff_sublist
    by (rule extract_log_no_rule)
qed


section \<open>The registry\<close>

lemma register_eq:
  "register cid s =
     (allocated s,
      s\<lparr>queues := (queues s)(allocated s := []), allocated := Suc (allocated s),
        subscribers := (subscribers s)(cid \<mapsto> allocated s)\<rparr>)"
  by (simp add: register_def Queue_def)

lemma publish_None: "subscribers s cid = None \<Longrightarrow> publish cid msg s = s"
  by (simp add: publish_def)

lemma publish_Some:
  "subscribers s cid = Some q \<Longrightarrow>
     publish cid msg s = s\<lparr>queues := (queues s)(q := queues s q @ [msg])\<rparr>"
  by (simp add: publish_def put_def)

lemma publish_all_Nil: "publish_all cid [] s = s"
  by (simp add: publish_all_def)

lemma publish_all_Cons: "publish_all cid (m # ms) s = publish_all cid ms (publish cid m s)"
  by (simp add: publish_all_def)

lemma publish_all_append:
  "publish_all cid (a @ b) s = publish_all cid b (publish_all cid a s)"
  by (simp add: publish_all_def)

lemma publish_all_snoc: "publish cid m (publish_all cid ms s) = publish_all cid (ms @ [m]) s"
  by (simp add: publish_all_def)

lemma publish_all_None: "subscribers s cid = None \<Longrightarrow> publish_all cid msgs s = s"
  by (induction msgs arbitrary: s) (simp_all add: publish_all_Nil publish_all_Cons publish_None)

lemma publish_all_Some:
  "subscribers s cid = Some q \<Longrightarrow>
     publish_all cid msgs s = s\<lparr>queues := (queues s)(q := queues s q @ msgs)\<rparr>"
proof (induction msgs arbitrary: s)
  case Nil
  then show ?case by (simp add: publish_all_Nil)
next
  case (Cons m ms)
  let ?s1 = "s\<lparr>queues := (queues s)(q := queues s q @ [m])\<rparr>"
  have p: "publish cid m s = ?s1" using Cons.prems by (rule publish_Some)
  have "subscribers ?s1 cid = Some q" using Cons.prems by simp
  then have "publish_all cid ms ?s1 = ?s1\<lparr>queues := (queues ?s1)(q := queues ?s1 q @ ms)\<rparr>"
    by (rule Cons.IH)
  also have "\<dots> = s\<lparr>queues := (queues s)(q := queues s q @ m # ms)\<rparr>"
    by simp
  finally show ?case by (simp only: publish_all_Cons p)
qed

lemma wf_state_empty: "wf_state empty_state"
  by (simp add: wf_state_def empty_state_def)

lemma wf_state_register: "wf_state s \<Longrightarrow> wf_state (snd (register cid s))"
  unfolding wf_state_def register_eq
  by (auto simp: less_Suc_eq split: if_splits)

lemma wf_state_publish_all: "wf_state s \<Longrightarrow> wf_state (publish_all cid msgs s)"
  by (cases "subscribers s cid") (auto simp: publish_all_None publish_all_Some wf_state_def)

text \<open>
  Claim C3, as amended. Registration is not idempotent. Whatever the dictionary holds for
  the id, \<open>register\<close> creates a new, empty queue, which no id was mapped to, and maps the
  id to it; the queue that was registered before is not returned. Apart from the new one,
  every queue keeps its contents.
\<close>

theorem register_creates_queue:
  "register cid s = (q, s') \<Longrightarrow>
     q = allocated s \<and> allocated s' = Suc (allocated s) \<and>
     subscribers s' = (subscribers s)(cid \<mapsto> q) \<and>
     queues s' = (queues s)(q := []) \<and>
     (wf_state s \<longrightarrow> (\<forall>c. subscribers s c \<noteq> Some q) \<and> wf_state s')"
proof -
  assume r: "register cid s = (q, s')"
  then have "fst (register cid s) = q" and "snd (register cid s) = s'"
    by simp_all
  then have q: "q = allocated s" and s': "s' = snd (register cid s)"
    by (simp_all only: register_eq fst_conv)
  have "wf_state s \<longrightarrow> (\<forall>c. subscribers s c \<noteq> Some q)"
    unfolding q wf_state_def by (metis less_irrefl)
  moreover have "wf_state s \<longrightarrow> wf_state s'"
    unfolding s' by (simp add: wf_state_register)
  moreover have "allocated s' = Suc (allocated s)"
    and "subscribers s' = (subscribers s)(cid \<mapsto> q)"
    and "queues s' = (queues s)(q := [])"
    unfolding s' q register_eq by simp_all
  ultimately show ?thesis
    using q by blast
qed

theorem register_creates_queue_witness:
  "register ''job'' (snd (register ''job'' empty_state)) = (1, snd (register ''job'' (snd (register ''job'' empty_state)))) \<and>
   subscribers (snd (register ''job'' (snd (register ''job'' empty_state)))) ''job'' = Some 1 \<and>
   wf_state (snd (register ''job'' empty_state)) \<and>
   wf_state (snd (register ''job'' (snd (register ''job'' empty_state))))"
proof -
  let ?s1 = "snd (register ''job'' empty_state)"
  have r: "register ''job'' ?s1 = (1, snd (register ''job'' ?s1))"
    by (simp add: register_eq empty_state_def)
  have w: "wf_state ?s1" by (simp add: wf_state_register wf_state_empty)
  from register_creates_queue [OF r] w r show ?thesis
    by simp
qed

theorem register_not_idempotent_counterexample:
  "subscribers (snd (register ''job'' empty_state)) ''job'' = Some 0 \<and>
   fst (register ''job'' (snd (register ''job'' empty_state))) = 1"
  by (simp add: register_eq empty_state_def)


section \<open>The executor: what it publishes\<close>

lemma strip_Nil_iff: "strip s = [] \<longleftrightarrow> (\<forall>c \<in> set s. isspace c)"
proof
  assume "strip s = []"
  then have "\<forall>c \<in> set (dropWhile isspace s). isspace c"
    by (simp add: strip_def)
  then have "dropWhile isspace s = []"
    by (metis dropWhile_eq_Nil_conv dropWhile_idem)
  then show "\<forall>c \<in> set s. isspace c" by simp
next
  assume "\<forall>c \<in> set s. isspace c"
  then have "\<forall>c \<in> set (dropWhile isspace s). isspace c"
    by (meson set_dropWhileD)
  then show "strip s = []" by (simp add: strip_def)
qed

lemma sublist_set: "sublist w s \<Longrightarrow> set w \<subseteq> set s"
  by (auto simp: sublist_def)

lemma extract_log_nonempty: "extract_log line = Some m \<Longrightarrow> m \<noteq> []"
proof -
  assume e: "extract_log line = Some m"
  have "contains ''Played'' line \<Longrightarrow> strip line \<noteq> []"
  proof -
    assume "contains ''Played'' line"
    then have "set ''Played'' \<subseteq> set line"
      unfolding contains_iff_sublist by (rule sublist_set)
    then have "CHR ''P'' \<in> set line" by simp
    moreover have "\<not> isspace CHR ''P''" by (simp add: isspace_def)
    ultimately show ?thesis unfolding strip_Nil_iff by blast
  qed
  with e show ?thesis
    unfolding extract_log_def
    by (auto split: if_splits option.splits list.splits)
qed

lemma notices_Nil: "notices [] = []"
  by (simp add: notices_def map_filter_simps)

lemma notices_Cons:
  "notices (text # lines) =
     (case extract_log (strip text) of None \<Rightarrow> notices lines | Some m \<Rightarrow> m # notices lines)"
  by (simp add: notices_def map_filter_simps split: option.splits)

lemma read_step:
  "(case extract_log (strip text) of None \<Rightarrow> s
    | Some log_message \<Rightarrow> if log_message \<noteq> [] then publish cid log_message s else s)
   = publish_all cid (notices [text]) s"
  by (auto simp: notices_Cons notices_Nil publish_all_Cons publish_all_Nil
      split: option.splits dest: extract_log_nonempty)

lemma notices_append_one: "notices [text] @ notices lines = notices (text # lines)"
  by (simp add: notices_Cons notices_Nil split: option.splits)

lemma read_output_lines:
  "\<forall>i < length lines. readline E (k + i) = Some (Inr (lines ! i)) \<Longrightarrow>
     read_output E cid k s = read_output E cid (k + length lines) (publish_all cid (notices lines) s)"
proof (induction lines arbitrary: k s)
  case Nil
  then show ?case by (simp add: notices_Nil publish_all_Nil)
next
  case (Cons x lines)
  from Cons.prems have r0: "readline E k = Some (Inr x)" by force
  have "\<forall>i < length lines. readline E (Suc k + i) = Some (Inr (lines ! i))"
  proof (intro allI impI)
    fix i assume "i < length lines"
    then have "Suc i < length (x # lines)" by simp
    with Cons.prems have "readline E (k + Suc i) = Some (Inr ((x # lines) ! Suc i))" by blast
    then show "readline E (Suc k + i) = Some (Inr (lines ! i))" by simp
  qed
  from Cons.IH [OF this]
  have "read_output E cid (Suc k) (publish_all cid (notices [x]) s) =
        read_output E cid (Suc k + length lines)
          (publish_all cid (notices lines) (publish_all cid (notices [x]) s))" .
  then show ?case
    by (subst read_output.simps)
       (simp add: r0 read_step publish_all_append [symmetric] notices_append_one)
qed

lemma read_output_end:
  "readline E n = None \<Longrightarrow> read_output E cid n s = Some (None, s)"
  "readline E n = Some (Inl e) \<Longrightarrow> read_output E cid n s = Some (Some e, s)"
  by (subst read_output.simps, simp)+

lemma read_output_publishes:
  assumes "read_output E cid i s = Some y"
  shows "\<exists>msgs. snd y = publish_all cid msgs s"
  using assms
proof (induction rule: read_output.raw_induct)
  case (1 f E cid i s y)
  show ?case
  proof (cases "readline E i")
    case None
    with 1(2) have "snd y = publish_all cid [] s" by (auto simp: publish_all_Nil)
    then show ?thesis by blast
  next
    case (Some a)
    show ?thesis
    proof (cases a)
      case (Inl e)
      with Some 1(2) have "snd y = publish_all cid [] s" by (auto simp: publish_all_Nil)
      then show ?thesis by blast
    next
      case (Inr x)
      with Some 1(2) have "f E cid (Suc i) (publish_all cid (notices [x]) s) = Some y"
        by (simp add: read_step)
      moreover from Some Inr 1(3)
      have "read_output E cid (Suc i) (publish_all cid (notices [x]) s) = Some y"
        by (subst (asm) read_output.simps) (simp add: read_step)
      ultimately obtain msgs
        where "snd y = publish_all cid msgs (publish_all cid (notices [x]) s)"
        using 1(1) by blast
      then have "snd y = publish_all cid (notices [x] @ msgs) s"
        by (simp add: publish_all_append)
      then show ?thesis by blast
    qed
  qed
qed (rule assms)


lemma publish_as_all: "publish cid m s = publish_all cid [m] s"
  by (simp add: publish_all_def)

lemma read_output_result:
  assumes lines: "\<forall>i < length lines. readline E i = Some (Inr (lines ! i))"
    and stop: "\<forall>t. readline E (length lines) \<noteq> Some (Inr t)"
  shows "\<exists>r. read_output E cid 0 s = Some (r, publish_all cid (notices lines) s)"
proof -
  from lines have "\<forall>i < length lines. readline E (0 + i) = Some (Inr (lines ! i))" by simp
  then have "read_output E cid 0 s =
      read_output E cid (0 + length lines) (publish_all cid (notices lines) s)"
    by (rule read_output_lines)
  then have eq: "read_output E cid 0 s =
      read_output E cid (length lines) (publish_all cid (notices lines) s)" by simp
  show ?thesis
  proof (cases "readline E (length lines)")
    case None
    then show ?thesis unfolding eq by (simp add: read_output_end)
  next
    case (Some a)
    with stop obtain e where "readline E (length lines) = Some (Inl e)"
      by (cases a) auto
    then show ?thesis unfolding eq by (simp add: read_output_end)
  qed
qed

lemma run_and_upload_with_outcome:
  assumes lines: "\<forall>i < length lines. readline E i = Some (Inr (lines ! i))"
    and stop: "\<forall>t. readline E (length lines) \<noteq> Some (Inr t)"
  shows
    "(\<exists>e. run_and_upload_with C E tmp cid script jd s = Some (Inl e, s)) \<or>
     (\<exists>e. run_and_upload_with C E tmp cid script jd s =
        Some (Inl e, publish_all cid [''Starting video generation...''] s)) \<or>
     (\<exists>e. run_and_upload_with C E tmp cid script jd s =
        Some (Inl e, publish_all cid (''Starting video generation...'' # notices lines) s)) \<or>
     (\<exists>e. run_and_upload_with C E tmp cid script jd s =
        Some (Inl e, publish_all cid
          (''Starting video generation...'' # notices lines @ [''Uploading video...'']) s)) \<or>
     (\<exists>e. \<not> is_Exception e \<and> run_and_upload_with C E tmp cid script jd s =
        Some (Inl e, publish_all cid
          (''Starting video generation...'' # notices lines @
             [''Uploading video...'', ''Video generation completed!'']) s)) \<or>
     (\<exists>url. run_and_upload_with C E tmp cid script jd s =
        Some (Inr url, publish_all cid
          (''Starting video generation...'' # notices lines @
             [''Uploading video...'', ''Video generation completed!'']) s))"
proof -
  obtain r where loop:
    "read_output E cid 0 (publish_all cid [''Starting video generation...''] s) =
       Some (r, publish_all cid (''Starting video generation...'' # notices lines) s)"
    using read_output_result [OF lines stop, of cid "publish_all cid [''Starting video generation...''] s"]
    by (auto simp: publish_all_append [symmetric])
  show ?thesis
    unfolding run_and_upload_with_def Let_def publish_as_all loop
    by (auto simp: publish_all_append [symmetric]
        split: sum.splits option.splits list.splits)
qed

lemma run_and_upload_try_outcome:
  assumes lines: "\<forall>i < length lines. readline E i = Some (Inr (lines ! i))"
    and stop: "\<forall>t. readline E (length lines) \<noteq> Some (Inr t)"
    and clean: "cleanup E = None"
  shows
    "(\<exists>e. run_and_upload_try C E cid script jd s = Some (Inl e, s)) \<or>
     (\<exists>e. run_and_upload_try C E cid script jd s =
        Some (Inl e, publish_all cid [''Starting video generation...''] s)) \<or>
     (\<exists>e. run_and_upload_try C E cid script jd s =
        Some (Inl e, publish_all cid (''Starting video generation...'' # notices lines) s)) \<or>
     (\<exists>e. run_and_upload_try C E cid script jd s =
        Some (Inl e, publish_all cid
          (''Starting video generation...'' # notices lines @ [''Uploading video...'']) s)) \<or>
     (\<exists>e. \<not> is_Exception e \<and> run_and_upload_try C E cid script jd s =
        Some (Inl e, publish_all cid
          (''Starting video generation...'' # notices lines @
             [''Uploading video...'', ''Video generation completed!'']) s)) \<or>
     (\<exists>url. run_and_upload_try C E cid script jd s =
        Some (Inr url, publish_all cid
          (''Starting video generation...'' # notices lines @
             [''Uploading video...'', ''Video generation completed!'']) s))"
proof (cases "mkdtemp E")
  case (Inl e)
  then have "run_and_upload_try C E cid script jd s = Some (Inl e, s)"
    by (simp add: run_and_upload_try_def)
  then show ?thesis by (intro disjI1 exI)
next
  case (Inr tmp)
  have eq: "run_and_upload_try C E cid script jd s = run_and_upload_with C E tmp cid script jd s"
    by (simp add: run_and_upload_try_def Inr clean split: option.splits prod.splits)
  show ?thesis
    unfolding eq by (rule run_and_upload_with_outcome [OF lines stop])
qed


section \<open>Terminal messages\<close>

lemma strip_keeps_prefix:
  assumes "w \<noteq> []" "\<not> isspace (hd w)" "\<not> isspace (last w)"
  shows "prefix w (strip (w @ x))"
proof -
  from assms obtain c w' where w: "w = c # w'" and c: "\<not> isspace c"
    by (cases w) auto
  have d1: "dropWhile isspace (w @ x) = w @ x" using w c by simp
  have "hd (rev w) = last w" using assms(1) by (simp add: hd_rev)
  then have d2: "dropWhile isspace (rev w) = rev w"
    using assms by (simp add: dropWhile_eq_self_iff)
  have "\<exists>z. dropWhile isspace (rev x @ rev w) = z @ rev w"
  proof (cases "\<forall>y \<in> set (rev x). isspace y")
    case True
    then have "dropWhile isspace (rev x @ rev w) = [] @ rev w"
      by (simp add: dropWhile_append d2)
    then show ?thesis by blast
  next
    case False
    then obtain y where "y \<in> set (rev x)" "\<not> isspace y" by blast
    then have "dropWhile isspace (rev x @ rev w) = dropWhile isspace (rev x) @ rev w"
      by (rule dropWhile_append1)
    then show ?thesis by blast
  qed
  then obtain z where "dropWhile isspace (rev x @ rev w) = z @ rev w" by blast
  then have "strip (w @ x) = w @ rev z"
    unfolding strip_def d1 by simp
  then show ?thesis by simp
qed

lemma terminal_Error: "terminal (''Error: '' @ x)"
proof -
  have "prefix ''Error:'' (strip (''Error:'' @ ('' '' @ x)))"
    by (rule strip_keeps_prefix) (simp_all add: isspace_def)
  then obtain y where "strip (''Error: '' @ x) = ''Error:'' @ y"
    by (auto simp: prefix_def)
  then have "lower (strip (''Error: '' @ x)) = lower ''Error:'' @ lower y"
    by (simp add: lower_def)
  moreover have "lower ''Error:'' = ''error:''" by code_simp
  ultimately show ?thesis
    by (simp add: terminal_def startswith_def)
qed

lemma terminal_completed: "terminal ''Video generation completed!''"
  by code_simp

lemma not_terminal_start: "\<not> terminal ''Starting video generation...''"
  by code_simp

lemma not_terminal_upload: "\<not> terminal ''Uploading video...''"
  by code_simp


lemma feed_lines:
  "\<forall>i < length lines. feed lines i = Some (Inr (lines ! i))"
  "\<forall>t. feed lines (length lines) \<noteq> Some (Inr t)"
  "feed lines (length lines) = None"
  by (simp_all add: feed_def)

lemma read_output_feed:
  "readline E = feed lines \<Longrightarrow>
     read_output E cid 0 s = Some (None, publish_all cid (notices lines) s)"
proof -
  assume E: "readline E = feed lines"
  have "\<forall>i < length lines. readline E (0 + i) = Some (Inr (lines ! i))"
    unfolding E by (simp add: feed_def)
  then have "read_output E cid 0 s =
      read_output E cid (0 + length lines) (publish_all cid (notices lines) s)"
    by (rule read_output_lines)
  moreover have "readline E (length lines) = None"
    unfolding E by (simp add: feed_def)
  ultimately show ?thesis by (simp add: read_output_end)
qed

lemma run_and_upload_example:
  "run_and_upload example_config (example_env lines) cid script jd s =
     Some (Inr (''https://db/storage/v1/object/public/videos/'' @ cid @ ''.mp4''),
           publish_all cid
             (''Starting video generation...'' # notices lines @
                [''Uploading video...'', ''Video generation completed!'']) s)"
proof -
  have r: "readline (example_env lines) = feed lines"
    by (simp add: example_env_def)
  have loop: "read_output (example_env lines) cid 0 (publish_all cid [''Starting video generation...''] s) =
      Some (None, publish_all cid (''Starting video generation...'' # notices lines) s)"
    by (simp add: read_output_feed [OF r] publish_all_append [symmetric])
  have v: "find_video_files (example_env lines) cid ''/tmp/job'' ''/tmp/job/media'' =
      [''/tmp/job/media/videos/out.mp4'']"
    by (simp add: find_video_files_def example_env_def path_join_def join2_def
        startswith_def endswith_def suffix_to_prefix)
  have j: "path_join ''/tmp/job'' [''media''] = ''/tmp/job/media''"
    by (simp add: path_join_def join2_def startswith_def endswith_def suffix_to_prefix)
  have f: "mkdtemp (example_env lines) = Inr ''/tmp/job''"
    "write_file (example_env lines) = (\<lambda>path text. None)"
    "makedirs (example_env lines) = (\<lambda>path. None)"
    "spawn (example_env lines) = (\<lambda>cmd cwd. None)"
    "wait (example_env lines) = Inr 0"
    "cleanup (example_env lines) = None"
    "SPRING_CALLBACK_URL example_config = None"
    by (simp_all add: example_env_def example_config_def)
  have u: "upload_to_supabase example_config (example_env lines) p (cid @ ''.mp4'') =
      Inr (''https://db/storage/v1/object/public/videos/'' @ cid @ ''.mp4'')" for p
    by (simp add: upload_to_supabase_def example_env_def example_config_def)
  show ?thesis
    unfolding run_and_upload_def run_and_upload_try_def run_and_upload_with_def Let_def publish_as_all
    by (simp add: f j loop v u publish_all_append [symmetric])
qed

text \<open>
  Claim C1, as amended. Take an execution in which the subprocess writes the lines
  \<open>lines\<close> and then its output ends or a read raises, in which no progress notice the
  classifier produces for these lines is itself a terminal message, and in which the
  removal of the temporary directory does not raise. Then \<open>run_and_upload\<close> returns or
  raises, and what it publishes for the job id is a sequence \<open>pre\<close> of messages that are
  not terminal, followed by
  \<^item> the completion sentinel, when a URL is returned;
  \<^item> \<open>Error: \<close> and the text of the exception, when an exception of class \<open>Exception\<close>
    reaches the outer handler, which publishes it once and raises the same exception
    again;
  \<^item> nothing, or the completion sentinel alone, when the exception is not of class
    \<open>Exception\<close> (the task is cancelled at an await, or the process is interrupted): the
    handler does not run and no error message is published.
  So exactly one terminal message is published in the first two cases, the last message,
  and at most one in the third. On a registered queue the messages are appended in this
  order; with no queue registered, publishing changes nothing.
\<close>

theorem run_and_upload_one_terminal:
  assumes lines: "\<forall>i < length lines. readline E i = Some (Inr (lines ! i))"
    and stop: "\<forall>t. readline E (length lines) \<noteq> Some (Inr t)"
    and quiet: "\<forall>m \<in> set (notices lines). \<not> terminal m"
    and clean: "cleanup E = None"
  shows "\<exists>r s' msgs pre.
           run_and_upload C E cid script jd s = Some (r, s') \<and>
           s' = publish_all cid msgs s \<and>
           (\<forall>q. subscribers s cid = Some q \<longrightarrow> queues s' q = queues s q @ msgs) \<and>
           (subscribers s cid = None \<longrightarrow> s' = s) \<and>
           (\<forall>m \<in> set pre. \<not> terminal m) \<and>
           terminal ''Video generation completed!'' \<and>
           (case r of
              Inr url \<Rightarrow> msgs = pre @ [''Video generation completed!'']
            | Inl e \<Rightarrow>
                if is_Exception e
                then msgs = pre @ [''Error: '' @ str_exc E e] \<and>
                     terminal (''Error: '' @ str_exc E e)
                else msgs = pre \<or> msgs = pre @ [''Video generation completed!''])"
proof -
  let ?start = "''Starting video generation...''"
  let ?upload = "''Uploading video...''"
  let ?done = "''Video generation completed!''"
  let ?G = "\<lambda>r msgs pre.
           run_and_upload C E cid script jd s = Some (r, publish_all cid msgs s) \<and>
           (\<forall>m \<in> set pre. \<not> terminal m) \<and>
           (case r of
              Inr url \<Rightarrow> msgs = pre @ [?done]
            | Inl e \<Rightarrow>
                if is_Exception e
                then msgs = pre @ [''Error: '' @ str_exc E e] \<and>
                     terminal (''Error: '' @ str_exc E e)
                else msgs = pre \<or> msgs = pre @ [?done])"
  have fail: "\<exists>r msgs pre. ?G r msgs pre"
    if t: "run_and_upload_try C E cid script jd s = Some (Inl e, publish_all cid pre s)"
      and pre: "\<forall>m \<in> set pre. \<not> terminal m" for e pre
  proof (cases "is_Exception e")
    case True
    then have "run_and_upload C E cid script jd s =
            Some (Inl e, publish_all cid (pre @ [''Error: '' @ str_exc E e]) s)"
      unfolding run_and_upload_def t by (simp add: publish_all_snoc)
    with pre True terminal_Error [of "str_exc E e"]
    have "?G (Inl e) (pre @ [''Error: '' @ str_exc E e]) pre" by simp
    then show ?thesis by (intro exI)
  next
    case False
    then have "run_and_upload C E cid script jd s = Some (Inl e, publish_all cid pre s)"
      unfolding run_and_upload_def t by simp
    with pre False have "?G (Inl e) pre pre" by simp
    then show ?thesis by (intro exI)
  qed
  have pre_ok: "\<forall>m \<in> set (?start # notices lines @ [?upload]). \<not> terminal m"
    using quiet by (simp add: not_terminal_start not_terminal_upload)
  have main: "\<exists>r msgs pre. ?G r msgs pre"
  proof -
    from run_and_upload_try_outcome [OF lines stop clean, of C cid script jd s]
    consider
      (a) e where "run_and_upload_try C E cid script jd s = Some (Inl e, s)"
    | (b) e where "run_and_upload_try C E cid script jd s = Some (Inl e, publish_all cid [?start] s)"
    | (c) e where "run_and_upload_try C E cid script jd s =
          Some (Inl e, publish_all cid (?start # notices lines) s)"
    | (d) e where "run_and_upload_try C E cid script jd s =
          Some (Inl e, publish_all cid (?start # notices lines @ [?upload]) s)"
    | (f) e where "\<not> is_Exception e" "run_and_upload_try C E cid script jd s =
          Some (Inl e, publish_all cid (?start # notices lines @ [?upload, ?done]) s)"
    | (g) url where "run_and_upload_try C E cid script jd s =
          Some (Inr url, publish_all cid (?start # notices lines @ [?upload, ?done]) s)"
      by (elim disjE exE conjE)
    then show ?thesis
    proof cases
      case a
      then have "run_and_upload_try C E cid script jd s = Some (Inl e, publish_all cid [] s)"
        by (simp add: publish_all_Nil)
      then show ?thesis by (rule fail) simp
    next
      case b
      then show ?thesis by (rule fail) (simp add: not_terminal_start)
    next
      case c
      then show ?thesis by (rule fail) (use quiet in \<open>simp add: not_terminal_start\<close>)
    next
      case d
      then show ?thesis by (rule fail) (rule pre_ok)
    next
      case f
      have "run_and_upload C E cid script jd s =
              Some (Inl e, publish_all cid ((?start # notices lines @ [?upload]) @ [?done]) s)"
        unfolding run_and_upload_def f(2) using f(1) by simp
      with pre_ok f(1)
      have "?G (Inl e) ((?start # notices lines @ [?upload]) @ [?done])
              (?start # notices lines @ [?upload])"
        by simp
      then show ?thesis by (intro exI)
    next
      case g
      have "run_and_upload C E cid script jd s =
              Some (Inr url, publish_all cid ((?start # notices lines @ [?upload]) @ [?done]) s)"
        unfolding run_and_upload_def g by simp
      with pre_ok
      have "?G (Inr url) ((?start # notices lines @ [?upload]) @ [?done])
              (?start # notices lines @ [?upload])"
        by simp
      then show ?thesis by (intro exI)
    qed
  qed
  then obtain r msgs pre where
    run: "run_and_upload C E cid script jd s = Some (r, publish_all cid msgs s)"
    and pre: "\<forall>m \<in> set pre. \<not> terminal m"
    and shape: "case r of
              Inr url \<Rightarrow> msgs = pre @ [?done]
            | Inl e \<Rightarrow>
                if is_Exception e
                then msgs = pre @ [''Error: '' @ str_exc E e] \<and>
                     terminal (''Error: '' @ str_exc E e)
                else msgs = pre \<or> msgs = pre @ [?done]"
    by (elim exE conjE)
  have q: "\<forall>q. subscribers s cid = Some q \<longrightarrow>
             queues (publish_all cid msgs s) q = queues s q @ msgs"
    by (simp add: publish_all_Some)
  have n: "subscribers s cid = None \<longrightarrow> publish_all cid msgs s = s"
    by (simp add: publish_all_None)
  show ?thesis
    by (intro exI [of _ r] exI [of _ "publish_all cid msgs s"] exI [of _ msgs] exI [of _ pre] conjI)
       (rule run refl q n pre terminal_completed shape)+
qed

theorem run_and_upload_one_terminal_witness:
  "\<exists>r s' msgs pre.
     run_and_upload example_config (example_env [''INFO start'', ''Played 3 animations'']) ''job''
       ''print(1)'' Map.empty (snd (register ''job'' empty_state)) = Some (r, s') \<and>
     queues s' 0 = msgs \<and>
     (case r of
        Inr url \<Rightarrow> msgs = pre @ [''Video generation completed!'']
      | Inl e \<Rightarrow>
          if is_Exception e
          then msgs = pre @ [''Error: '' @ str_exc (example_env [''INFO start'', ''Played 3 animations'']) e] \<and>
               terminal (''Error: '' @ str_exc (example_env [''INFO start'', ''Played 3 animations'']) e)
          else msgs = pre \<or> msgs = pre @ [''Video generation completed!''])"
proof -
  let ?lines = "[''INFO start'', ''Played 3 animations'']"
  let ?s = "snd (register ''job'' empty_state)"
  have r: "readline (example_env ?lines) = feed ?lines" by (simp add: example_env_def)
  have h1: "\<forall>i < length ?lines. readline (example_env ?lines) i = Some (Inr (?lines ! i))"
    unfolding r by (rule feed_lines)
  have h2: "\<forall>t. readline (example_env ?lines) (length ?lines) \<noteq> Some (Inr t)"
    unfolding r by (rule feed_lines)
  have h3: "\<forall>m \<in> set (notices ?lines). \<not> terminal m" by code_simp
  have h4: "cleanup (example_env ?lines) = None" by (simp add: example_env_def)
  have sub: "subscribers ?s ''job'' = Some 0" "queues ?s 0 = []"
    by (simp_all add: register_eq empty_state_def)
  from run_and_upload_one_terminal [OF h1 h2 h3 h4, of example_config "''job''" "''print(1)''" Map.empty ?s]
  obtain r s' msgs pre where
    1: "run_and_upload example_config (example_env ?lines) ''job'' ''print(1)'' Map.empty ?s = Some (r, s')"
    and 2: "\<forall>q. subscribers ?s ''job'' = Some q \<longrightarrow> queues s' q = queues ?s q @ msgs"
    and 3: "case r of
        Inr url \<Rightarrow> msgs = pre @ [''Video generation completed!'']
      | Inl e \<Rightarrow>
          if is_Exception e
          then msgs = pre @ [''Error: '' @ str_exc (example_env ?lines) e] \<and>
               terminal (''Error: '' @ str_exc (example_env ?lines) e)
          else msgs = pre \<or> msgs = pre @ [''Video generation completed!'']"
    by (elim exE conjE)
  from 2 sub have 4: "queues s' 0 = msgs" by simp
  show ?thesis
    by (intro exI [of _ r] exI [of _ s'] exI [of _ msgs] exI [of _ pre] conjI) (rule 1 4 3)+
qed

theorem run_and_upload_two_terminal_counterexample:
  "run_and_upload example_config (example_env [''error: Played'']) ''job'' ''print(1)'' Map.empty
     (snd (register ''job'' empty_state)) =
   Some (Inr ''https://db/storage/v1/object/public/videos/job.mp4'',
         publish_all ''job''
           [''Starting video generation...'', ''error: Played'', ''Uploading video...'',
            ''Video generation completed!'']
           (snd (register ''job'' empty_state))) \<and>
   queues (publish_all ''job''
           [''Starting video generation...'', ''error: Played'', ''Uploading video...'',
            ''Video generation completed!'']
           (snd (register ''job'' empty_state))) 0 =
     [''Starting video generation...'', ''error: Played'', ''Uploading video...'',
      ''Video generation completed!''] \<and>
   terminal ''error: Played'' \<and> terminal ''Video generation completed!''"
proof -
  have n: "notices [''error: Played''] = [''error: Played'']" by code_simp
  have sub: "subscribers (snd (register ''job'' empty_state)) ''job'' = Some 0"
    "queues (snd (register ''job'' empty_state)) 0 = []"
    by (simp_all add: register_eq empty_state_def)
  have t: "terminal ''error: Played''" by code_simp
  show ?thesis
    using t terminal_completed
    by (simp add: run_and_upload_example n publish_all_Some [OF sub(1)] sub(2))
qed


text \<open>
  The two hypotheses beyond the classifier are needed. When the removal of the temporary
  directory raises after a successful upload, the handler publishes an error after the
  completion sentinel; when the task is cancelled while it waits for the subprocess, no
  terminal message is published at all.
\<close>

lemma run_and_upload_cleanup_raises_example:
  "run_and_upload example_config ((example_env lines)\<lparr>cleanup := Some (Raised ''busy'')\<rparr>)
     cid script jd s =
   Some (Inl (Raised ''busy''),
         publish_all cid
           (''Starting video generation...'' # notices lines @
              [''Uploading video...'', ''Video generation completed!'', ''Error: busy'']) s)"
proof -
  let ?E = "(example_env lines)\<lparr>cleanup := Some (Raised ''busy'')\<rparr>"
  have r: "readline ?E = feed lines"
    by (simp add: example_env_def)
  have loop: "read_output ?E cid 0 (publish_all cid [''Starting video generation...''] s) =
      Some (None, publish_all cid (''Starting video generation...'' # notices lines) s)"
    by (simp add: read_output_feed [OF r] publish_all_append [symmetric])
  have v: "find_video_files ?E cid ''/tmp/job'' ''/tmp/job/media'' =
      [''/tmp/job/media/videos/out.mp4'']"
    by (simp add: find_video_files_def example_env_def path_join_def join2_def
        startswith_def endswith_def suffix_to_prefix)
  have j: "path_join ''/tmp/job'' [''media''] = ''/tmp/job/media''"
    by (simp add: path_join_def join2_def startswith_def endswith_def suffix_to_prefix)
  have f: "mkdtemp ?E = Inr ''/tmp/job''"
    "write_file ?E = (\<lambda>path text. None)"
    "makedirs ?E = (\<lambda>path. None)"
    "spawn ?E = (\<lambda>cmd cwd. None)"
    "wait ?E = Inr 0"
    "cleanup ?E = Some (Raised ''busy'')"
    "str_exc (example_env lines) (Raised ''busy'') = ''busy''"
    "SPRING_CALLBACK_URL example_config = None"
    by (simp_all add: example_env_def example_config_def)
  have u: "upload_to_supabase example_config ?E p (cid @ ''.mp4'') =
      Inr (''https://db/storage/v1/object/public/videos/'' @ cid @ ''.mp4'')" for p
    by (simp add: upload_to_supabase_def example_env_def example_config_def)
  show ?thesis
    unfolding run_and_upload_def run_and_upload_try_def run_and_upload_with_def Let_def publish_as_all
    by (simp add: f j loop v u publish_all_append [symmetric])
qed

lemma run_and_upload_cancelled_example:
  "run_and_upload example_config ((example_env lines)\<lparr>wait := Inl CancelledError\<rparr>)
     cid script jd s =
   Some (Inl CancelledError,
         publish_all cid (''Starting video generation...'' # notices lines) s)"
proof -
  let ?E = "(example_env lines)\<lparr>wait := Inl CancelledError\<rparr>"
  have r: "readline ?E = feed lines"
    by (simp add: example_env_def)
  have loop: "read_output ?E cid 0 (publish_all cid [''Starting video generation...''] s) =
      Some (None, publish_all cid (''Starting video generation...'' # notices lines) s)"
    by (simp add: read_output_feed [OF r] publish_all_append [symmetric])
  have f: "mkdtemp ?E = Inr ''/tmp/job''"
    "write_file ?E = (\<lambda>path text. None)"
    "makedirs ?E = (\<lambda>path. None)"
    "spawn ?E = (\<lambda>cmd cwd. None)"
    "wait ?E = Inl CancelledError"
    "cleanup ?E = None"
    by (simp_all add: example_env_def)
  show ?thesis
    unfolding run_and_upload_def run_and_upload_try_def run_and_upload_with_def Let_def publish_as_all
    by (simp add: f loop)
qed

section \<open>The executor changes the state only by publishing\<close>

lemma read_output_publishes_state:
  "read_output E cid i s1 = Some (r, s2) \<Longrightarrow> \<exists>msgs. s2 = publish_all cid msgs s1"
  using read_output_publishes [of E cid i s1 "(r, s2)"] by simp

lemma run_and_upload_with_publishes:
  assumes "run_and_upload_with C E tmp cid script jd s = Some (r, s')"
  shows "\<exists>msgs. s' = publish_all cid msgs s"
proof -
  have nil: "\<exists>msgs. t = publish_all cid msgs t" for t
    by (rule exI [of _ "[]"]) (simp add: publish_all_Nil)
  have ex: "\<exists>msgs. publish_all cid a s = publish_all cid msgs s" for a
    by (rule exI [of _ a]) simp
  from assms show ?thesis
    unfolding run_and_upload_with_def Let_def publish_as_all
    by (auto simp: publish_all_append [symmetric] nil ex
        split: sum.splits option.splits list.splits if_splits
        dest!: read_output_publishes_state)
qed


lemma run_and_upload_try_publishes:
  assumes "run_and_upload_try C E cid script jd s = Some (r, s')"
  shows "\<exists>msgs. s' = publish_all cid msgs s"
proof (cases "mkdtemp E")
  case (Inl e)
  with assms have "s' = publish_all cid [] s"
    by (simp add: run_and_upload_try_def publish_all_Nil)
  then show ?thesis by (rule exI)
next
  case (Inr tmp)
  with assms obtain r' where "run_and_upload_with C E tmp cid script jd s = Some (r', s')"
    by (auto simp: run_and_upload_try_def split: option.splits prod.splits)
  then show ?thesis by (rule run_and_upload_with_publishes)
qed

lemma run_and_upload_publishes:
  assumes "run_and_upload C E cid script jd s = Some (r, s')"
  shows "\<exists>msgs. s' = publish_all cid msgs s"
proof -
  from assms obtain r' t where t: "run_and_upload_try C E cid script jd s = Some (r', t)"
    and s': "s' = t \<or> (\<exists>m. s' = publish cid m t)"
    by (auto simp: run_and_upload_def split: option.splits prod.splits sum.splits if_splits)
  from t obtain msgs where m: "t = publish_all cid msgs s"
    using run_and_upload_try_publishes by blast
  from s' show ?thesis
  proof
    assume "s' = t"
    with m show ?thesis by blast
  next
    assume "\<exists>m. s' = publish cid m t"
    then obtain x where "s' = publish cid x t" by blast
    with m have "s' = publish_all cid (msgs @ [x]) s" by (simp add: publish_all_snoc)
    then show ?thesis by (rule exI)
  qed
qed


text \<open>
  Claim C5. For a job id with no registered queue, publishing a message leaves the state
  as it was: the guard \<open>conversation_id in subscribers\<close> is false, no queue is touched,
  and nothing is raised or awaited. So a whole execution for such an id, when it ends,
  leaves the state unchanged.
\<close>

theorem publish_unregistered_noop:
  "subscribers s cid = None \<Longrightarrow>
     publish cid msg s = s \<and>
     (\<forall>C E script jd r s'. run_and_upload C E cid script jd s = Some (r, s') \<longrightarrow> s' = s)"
proof
  assume n: "subscribers s cid = None"
  then show "publish cid msg s = s" by (rule publish_None)
  show "\<forall>C E script jd r s'. run_and_upload C E cid script jd s = Some (r, s') \<longrightarrow> s' = s"
  proof (intro allI impI)
    fix C E script jd r s'
    assume "run_and_upload C E cid script jd s = Some (r, s')"
    then obtain msgs where "s' = publish_all cid msgs s"
      using run_and_upload_publishes by blast
    with n show "s' = s" by (simp add: publish_all_None)
  qed
qed

theorem publish_unregistered_noop_witness:
  "publish ''job'' ''Starting video generation...'' empty_state = empty_state \<and>
   run_and_upload example_config (example_env [''Played 1'']) ''job'' ''print(1)'' Map.empty empty_state =
     Some (Inr ''https://db/storage/v1/object/public/videos/job.mp4'', empty_state)"
proof -
  have n: "subscribers empty_state ''job'' = None" by (simp add: empty_state_def)
  have r: "run_and_upload example_config (example_env [''Played 1'']) ''job'' ''print(1)'' Map.empty empty_state =
     Some (Inr ''https://db/storage/v1/object/public/videos/job.mp4'',
       publish_all ''job'' (''Starting video generation...'' # notices [''Played 1''] @
                [''Uploading video...'', ''Video generation completed!'']) empty_state)"
    by (simp add: run_and_upload_example)
  from publish_unregistered_noop [OF n, of "''Starting video generation...''"] r
  show ?thesis by simp
qed






section \<open>A successful run\<close>













section \<open>The metadata\<close>

text \<open>
  Claim C10. The metadata mapping \<open>json_data\<close> is never read: two executions that differ
  in it alone return the same result (URL or exception) and publish the same messages, and
  so do two calls of the submit endpoint.
\<close>

theorem json_data_not_used:
  "run_and_upload C E cid script jd1 s = run_and_upload C E cid script jd2 s \<and>
   run C E \<lparr>conversation_id = cid, code = script, json_data = jd1\<rparr> s =
   run C E \<lparr>conversation_id = cid, code = script, json_data = jd2\<rparr> s"
proof -
  have w: "run_and_upload_with C E tmp cid script jd1 s =
           run_and_upload_with C E tmp cid script jd2 s" for tmp
    by (simp add: run_and_upload_with_def)
  have t: "run_and_upload_try C E cid script jd1 s = run_and_upload_try C E cid script jd2 s"
    unfolding run_and_upload_try_def w by (rule refl)
  have r: "run_and_upload C E cid script jd1 s = run_and_upload C E cid script jd2 s"
    unfolding run_and_upload_def t by (rule refl)
  have "run C E \<lparr>conversation_id = cid, code = script, json_data = jd1\<rparr> s =
        run C E \<lparr>conversation_id = cid, code = script, json_data = jd2\<rparr> s"
    unfolding run_def by (simp only: RunRequest.simps r)
  with r show ?thesis by (rule conjI)
qed

theorem json_data_not_used_witness:
  "run_and_upload example_config (example_env [''Played 1'']) ''job'' ''print(1)''
     [''title'' \<mapsto> JStr ''a''] empty_state =
   run_and_upload example_config (example_env [''Played 1'']) ''job'' ''print(1)''
     [''title'' \<mapsto> JStr ''b'', ''n'' \<mapsto> JNum 2] empty_state"
  using json_data_not_used [of example_config "example_env [''Played 1'']" "''job''" "''print(1)''"
      "[''title'' \<mapsto> JStr ''a'']" empty_state "[''title'' \<mapsto> JStr ''b'', ''n'' \<mapsto> JNum 2]"]
  by (rule conjunct1)

section \<open>The submit endpoint and its errors\<close>

text \<open>
  Claim C2, evaluated on the code. For a request with an empty job id or an empty code the
  handler raises \<open>HTTPException(status_code=400)\<close> inside its own \<open>try\<close>, whose
  \<open>except Exception\<close> turns it into \<open>HTTPException(status_code=500)\<close>: the status is the
  one of a failed execution. The executor is not called, and the state is unchanged.
\<close>

theorem run_empty_field_status_500:
  "(conversation_id req = [] \<or> code req = [] \<longrightarrow>
      run C E req s =
        Some (Inl (HTTPException 500
                (str_exc E (HTTPException 400 ''conversation_id and code are required''))), s)) \<and>
   (conversation_id req \<noteq> [] \<and> code req \<noteq> [] \<and> is_Exception e \<and>
    run_and_upload C E (conversation_id req) (code req) (json_data req) s = Some (Inl e, s')
    \<longrightarrow> run C E req s = Some (Inl (HTTPException 500 (str_exc E e)), s'))"
  by (auto simp: run_def)

theorem run_empty_field_status_500_witness:
  "run example_config (example_env []) \<lparr>conversation_id = [], code = ''print(1)'', json_data = Map.empty\<rparr>
     empty_state =
   Some (Inl (HTTPException 500 ''conversation_id and code are required''), empty_state)"
  using run_empty_field_status_500 [of "\<lparr>conversation_id = [], code = ''print(1)'', json_data = Map.empty\<rparr>"
      example_config "example_env []" empty_state]
  by (simp add: example_env_def)

section \<open>The frames of the stream\<close>




end
